theory Spec2Isabelle
  imports Complex_Main "HOL-Library.Multiset" "HOL-Library.Sublist" "HOL-Library.Log_Nat"
begin

section \<open>Values shared by the packages\<close>

subsection \<open>float64\<close>

text \<open>
  A Go \<open>float64\<close> is NaN, one of the two infinities, or a finite value. The finite values
  are a subset of the reals; the code only compares timestamps with \<open><\<close>, \<open>==\<close> and \<open>!=\<close>,
  which on finite values agree with the order of the reals (the two zeros compare equal).
  Every statement below that ranges over \<open>Fin r\<close> therefore covers every finite float64.
\<close>

datatype float64 = NaN | NegInf | Fin real | PosInf

text \<open>Go's \<open><\<close> on float64: false as soon as one side is NaN.\<close>

fun flt :: "float64 \<Rightarrow> float64 \<Rightarrow> bool" where
  "flt NaN _ = False"
| "flt _ NaN = False"
| "flt NegInf NegInf = False"
| "flt NegInf _ = True"
| "flt (Fin a) (Fin b) = (a < b)"
| "flt (Fin a) PosInf = True"
| "flt (Fin a) NegInf = False"
| "flt PosInf _ = False"

text \<open>Go's \<open>==\<close> on float64: NaN is equal to nothing, itself included.\<close>

fun feq :: "float64 \<Rightarrow> float64 \<Rightarrow> bool" where
  "feq NaN _ = False"
| "feq _ NaN = False"
| "feq a b = (a = b)"

fun is_finite :: "float64 \<Rightarrow> bool" where
  "is_finite (Fin r) = True"
| "is_finite _ = False"

text \<open>
  Reading a decimal literal as a float64 (\<open>strconv.ParseFloat(s, 64)\<close>) rounds the number
  the literal spells to the nearest float64, a tie going to the even significand. A
  float64 is an integer of at most 53 bits times a power of two, the exponent of that
  power being at least \<open>-1074\<close>. \<open>binade a\<close> is the integer part of the binary logarithm of
  \<open>a > 0\<close>, computed from the bit length of \<open>a\<close> rounded down to an integer or of its
  inverse rounded up; the exponent of the last place is 52 below it, and never below
  \<open>-1074\<close>. A result of magnitude \<open>2^1024\<close> is out of range.
\<close>

definition round_half_even :: "real \<Rightarrow> int" where
  "round_half_even x =
     (let f = \<lfloor>x\<rfloor>; d = x - of_int f
      in if d < 1 / 2 then f else if 1 / 2 < d then f + 1 else if even f then f else f + 1)"

definition binade :: "real \<Rightarrow> int" where
  "binade a = (if 1 \<le> a then bitlen \<lfloor>a\<rfloor> - 1 else - bitlen (\<lceil>1 / a\<rceil> - 1))"

definition nearest_float64 :: "real \<Rightarrow> real" where
  "nearest_float64 r =
     (if r = 0 then 0
      else (let e = max (binade \<bar>r\<bar>) (- 1022) - 52
            in of_int (round_half_even (r / 2 powi e)) * 2 powi e))"

subsection \<open>Byte slices that carry JSON\<close>

text \<open>
  Every \<open>[]byte\<close> of the program is either produced by \<open>json.Marshal\<close> or handed to
  \<open>json.Unmarshal\<close>. A byte slice is modelled by what the JSON scanner makes of it: the
  JSON value it spells, or \<open>Garbage\<close> with the raw text when it is not a JSON text
  (the nil slice is \<open>Garbage []\<close>). A number keeps whether its literal is an integer
  literal (\<open>JInt\<close>: no fraction, no exponent) because decoding into an \<open>int\<close> field
  accepts only those. Strings are the decoded contents, taken to be valid UTF-8 (the
  encoder and the decoder replace other bytes), and the escaping in the text is not modelled.
\<close>

datatype json =
    JNull
  | JBool bool
  | JInt int
  | JFrac real
  | JString string
  | JArray "json list"
  | JObject "(string \<times> json) list"

datatype bytes = Garbage string | Json json

subsection \<open>Run-time panics\<close>

datatype panic = NilPointerDereference

section \<open>Package feed\<close>

text \<open>
  \<open>*post\<close> is \<open>nil\<close> or the address of a \<open>post{body, timestamp, next}\<close>. The list is
  singly linked, every post is allocated by \<open>newPost\<close> inside \<open>Add\<close> or \<open>NewFeed\<close> and is
  referenced from exactly one place, so a pointer is modelled by the value it points to.
\<close>

datatype post = nil | Post string float64 post

record feed =
  start :: post

definition newPost :: "string \<Rightarrow> float64 \<Rightarrow> post \<Rightarrow> post" where
  "newPost body timestamp nxt = Post body timestamp nxt"

definition NewFeed :: feed where
  "NewFeed = \<lparr>start = newPost ''null'' NegInf (newPost '''' PosInf nil)\<rparr>"

text \<open>
  The walk of \<open>Add\<close>, started at \<open>curr = pred.next\<close>. The result is the new value of
  \<open>pred.next\<close>: while \<open>curr.timestamp < timestamp\<close> the cursor moves on, then the new post
  is linked in front of \<open>curr\<close>. Reading \<open>curr.timestamp\<close> through a nil \<open>curr\<close> panics.
\<close>

fun add_walk :: "string \<Rightarrow> float64 \<Rightarrow> post \<Rightarrow> panic + post" where
  "add_walk body timestamp nil = Inl NilPointerDereference"
| "add_walk body timestamp (Post cb ct cn) =
     (if flt ct timestamp
      then (case add_walk body timestamp cn of
              Inl e \<Rightarrow> Inl e
            | Inr cn' \<Rightarrow> Inr (Post cb ct cn'))
      else Inr (newPost body timestamp (Post cb ct cn)))"

definition Add :: "feed \<Rightarrow> string \<Rightarrow> float64 \<Rightarrow> panic + feed" where
  "Add f body timestamp =
     (case start f of
        nil \<Rightarrow> Inl NilPointerDereference
      | Post sb st cur \<Rightarrow>
          (case add_walk body timestamp cur of
             Inl e \<Rightarrow> Inl e
           | Inr cur' \<Rightarrow> Inr (f\<lparr>start := Post sb st cur'\<rparr>)))"

text \<open>
  The walk of \<open>Remove\<close>: the new value of \<open>pred.next\<close> and the boolean returned.
\<close>

fun remove_walk :: "float64 \<Rightarrow> post \<Rightarrow> panic + (post \<times> bool)" where
  "remove_walk timestamp nil = Inl NilPointerDereference"
| "remove_walk timestamp (Post cb ct cn) =
     (if flt ct timestamp
      then (case remove_walk timestamp cn of
              Inl e \<Rightarrow> Inl e
            | Inr (cn', r) \<Rightarrow> Inr (Post cb ct cn', r))
      else if feq ct timestamp then Inr (cn, True)
      else Inr (Post cb ct cn, False))"

definition Remove :: "feed \<Rightarrow> float64 \<Rightarrow> panic + (feed \<times> bool)" where
  "Remove f timestamp =
     (case start f of
        nil \<Rightarrow> Inl NilPointerDereference
      | Post sb st cur \<Rightarrow>
          (case remove_walk timestamp cur of
             Inl e \<Rightarrow> Inl e
           | Inr (cur', r) \<Rightarrow> Inr (f\<lparr>start := Post sb st cur'\<rparr>, r)))"

fun contains_walk :: "float64 \<Rightarrow> post \<Rightarrow> panic + bool" where
  "contains_walk timestamp nil = Inl NilPointerDereference"
| "contains_walk timestamp (Post cb ct cn) =
     (if flt ct timestamp then contains_walk timestamp cn
      else Inr (feq ct timestamp))"

definition Contains :: "feed \<Rightarrow> float64 \<Rightarrow> panic + bool" where
  "Contains f timestamp =
     (case start f of
        nil \<Rightarrow> Inl NilPointerDereference
      | Post sb st cur \<Rightarrow> contains_walk timestamp cur)"

text \<open>
  \<open>json.Marshal(postBodyTimestamp{Body, Timestamp})\<close>. The struct has no tags, so the keys
  are the field names. A float64 is written without exponent when its magnitude is below
  \<open>1e21\<close> (an integral value is then an integer literal); NaN and the infinities are
  refused, and \<open>ShowFeed\<close> drops the error and keeps the nil slice.
\<close>

definition marshal_float64 :: "real \<Rightarrow> json" where
  "marshal_float64 r =
     (if r = of_int \<lfloor>r\<rfloor> \<and> \<bar>r\<bar> < 10 ^ 21 then JInt \<lfloor>r\<rfloor> else JFrac r)"

fun marshal_postBodyTimestamp :: "string \<Rightarrow> float64 \<Rightarrow> bytes" where
  "marshal_postBodyTimestamp body (Fin r) =
     Json (JObject [(''Body'', JString body), (''Timestamp'', marshal_float64 r)])"
| "marshal_postBodyTimestamp body _ = Garbage []"

fun reverseFeed :: "bytes list \<Rightarrow> bytes list" where
  "reverseFeed [] = []"
| "reverseFeed (x # xs) = reverseFeed xs @ [x]"

text \<open>The loop of \<open>ShowFeed\<close>, started at \<open>post = f.start.next\<close>.\<close>

fun show_walk :: "post \<Rightarrow> panic + bytes list" where
  "show_walk nil = Inl NilPointerDereference"
| "show_walk (Post b t n) =
     (if \<not> feq t PosInf
      then (case show_walk n of
              Inl e \<Rightarrow> Inl e
            | Inr feedArray \<Rightarrow> Inr (marshal_postBodyTimestamp b t # feedArray))
      else Inr [])"

definition ShowFeed :: "feed \<Rightarrow> panic + bytes list" where
  "ShowFeed f =
     (case start f of
        nil \<Rightarrow> Inl NilPointerDereference
      | Post sb st p \<Rightarrow>
          (case show_walk p of
             Inl e \<Rightarrow> Inl e
           | Inr feedArray \<Rightarrow> Inr (reverseFeed feedArray)))"

subsection \<open>The data-model invariant of a feed\<close>

text \<open>
  Read from \<open>head.next\<close> on: every post before the terminal one has a finite timestamp
  strictly below its successor's, and the terminal post is the \<open>+\<infinity>\<close> sentinel, whose
  \<open>next\<close> is nil.
\<close>

fun ascending :: "post \<Rightarrow> bool" where
  "ascending nil = False"
| "ascending (Post b PosInf n) = (n = nil)"
| "ascending (Post b (Fin r) nil) = False"
| "ascending (Post b (Fin r) (Post b' t' n')) = (flt (Fin r) t' \<and> ascending (Post b' t' n'))"
| "ascending (Post b _ n) = False"

definition feed_inv :: "feed \<Rightarrow> bool" where
  "feed_inv f = (case start f of Post sb NegInf n \<Rightarrow> ascending n | _ \<Rightarrow> False)"

text \<open>The posts met from a pointer on, in list order, and those strictly between the sentinels.\<close>

fun posts_from :: "post \<Rightarrow> (string \<times> float64) list" where
  "posts_from nil = []"
| "posts_from (Post b t n) = (b, t) # posts_from n"

definition posts :: "feed \<Rightarrow> (string \<times> float64) list" where
  "posts f = butlast (tl (posts_from (start f)))"

subsection \<open>Sequences of calls on a feed\<close>

text \<open>A sequence of \<open>Add(body, timestamp)\<close> calls; a panic ends the run.\<close>

fun add_all :: "feed \<Rightarrow> (string \<times> float64) list \<Rightarrow> panic + feed" where
  "add_all f [] = Inr f"
| "add_all f ((body, timestamp) # rest) =
     (case Add f body timestamp of Inl e \<Rightarrow> Inl e | Inr f' \<Rightarrow> add_all f' rest)"

text \<open>
  A sequence of \<open>Add\<close> and \<open>Remove\<close> calls, with the trace of what each call did:
  \<open>Removed t r\<close> records that \<open>Remove(t)\<close> returned \<open>r\<close>.
\<close>

datatype call = AddCall string float64 | RemoveCall float64

datatype event = Added string float64 | Removed float64 bool

fun run_calls :: "feed \<Rightarrow> call list \<Rightarrow> panic + (feed \<times> event list)" where
  "run_calls f [] = Inr (f, [])"
| "run_calls f (AddCall body timestamp # rest) =
     (case Add f body timestamp of
        Inl e \<Rightarrow> Inl e
      | Inr f' \<Rightarrow>
          (case run_calls f' rest of
             Inl e \<Rightarrow> Inl e
           | Inr (f'', evs) \<Rightarrow> Inr (f'', Added body timestamp # evs)))"
| "run_calls f (RemoveCall timestamp # rest) =
     (case Remove f timestamp of
        Inl e \<Rightarrow> Inl e
      | Inr (f', r) \<Rightarrow>
          (case run_calls f' rest of
             Inl e \<Rightarrow> Inl e
           | Inr (f'', evs) \<Rightarrow> Inr (f'', Removed timestamp r # evs)))"

text \<open>
  The membership property in the specification's words, read on a trace listed newest
  first: the last \<open>Add(\<cdot>, t)\<close> exists and no successful \<open>Remove(t)\<close> came after it.
\<close>

fun last_add_stands :: "float64 \<Rightarrow> event list \<Rightarrow> bool" where
  "last_add_stands t [] = False"
| "last_add_stands t (Added body t' # older) = (if t' = t then True else last_add_stands t older)"
| "last_add_stands t (Removed t' r # older) =
     (if t' = t \<and> r then False else last_add_stands t older)"

text \<open>
  The input contract on a sequence of calls: every timestamp is finite and no \<open>Add\<close>
  uses a timestamp that is in the feed at that moment (\<open>present\<close> lists the timestamps
  added and not removed since). Pairwise distinct \<open>Add\<close> timestamps satisfy it.
\<close>

fun no_duplicates :: "float64 list \<Rightarrow> call list \<Rightarrow> bool" where
  "no_duplicates present [] = True"
| "no_duplicates present (AddCall body t # rest) =
     (is_finite t \<and> t \<notin> set present \<and> no_duplicates (t # present) rest)"
| "no_duplicates present (RemoveCall t # rest) =
     (is_finite t \<and> no_duplicates (removeAll t present) rest)"

text \<open>
  Membership of \<open>t\<close> carried forward along a trace (oldest event first) from its value
  \<open>s\<close> before the trace: an \<open>Add(\<cdot>, t)\<close> sets it, a successful \<open>Remove(t)\<close> clears it.
\<close>

fun standing_from :: "bool \<Rightarrow> float64 \<Rightarrow> event list \<Rightarrow> bool" where
  "standing_from s t [] = s"
| "standing_from s t (Added body t' # evs) = standing_from (s \<or> t' = t) t evs"
| "standing_from s t (Removed t' r # evs) = standing_from (s \<and> \<not> (t' = t \<and> r)) t evs"

section \<open>Package queue\<close>

text \<open>
  \<open>json.Marshal(Data{...})\<close>: \<open>Data\<close> has the fields \<open>Command\<close>, \<open>Id\<close>, \<open>Body\<close>, \<open>Timestamp\<close>
  and \<open>Value\<close> in this order, tagged \<open>command\<close>, \<open>id\<close>, \<open>body\<close>, \<open>timestamp\<close>, \<open>value\<close>,
  none with \<open>omitempty\<close>. A timestamp that is not finite makes \<open>Marshal\<close> fail; the caller
  drops the error and keeps the nil slice.
\<close>

datatype Data = Data string int string float64 string

fun marshal_Data :: "Data \<Rightarrow> bytes" where
  "marshal_Data (Data command ident body (Fin r) val) =
     Json (JObject [(''command'', JString command), (''id'', JInt ident),
                    (''body'', JString body), (''timestamp'', marshal_float64 r),
                    (''value'', JString val)])"
| "marshal_Data (Data command ident body _ val) = Garbage []"

text \<open>
  The tasks are shared: \<open>q.head\<close>, \<open>q.tail\<close> and the \<open>next\<close> fields point into one chain,
  and \<open>Enqueue\<close> writes \<open>q.tail.next\<close>, which \<open>Dequeue\<close> later reads through \<open>q.head\<close>. So
  tasks live in a store: \<open>tasks\<close> maps an address to the task there, \<open>fresh\<close> is the next
  address an allocation returns, and a \<open>*task\<close> is \<open>None\<close> for nil or \<open>Some\<close> address.
  The field \<open>nxt\<close> is the source's \<open>next\<close>.
\<close>

record task =
  byteTask :: bytes
  nxt :: "nat option"

record queue =
  tasks :: "nat \<Rightarrow> task"
  fresh :: nat
  head :: "nat option"
  tail :: "nat option"

text \<open>\<open>new(task)\<close>: the zero task, a nil byte slice and a nil \<open>next\<close>.\<close>

definition zero_task :: task where
  "zero_task = \<lparr>byteTask = Garbage [], nxt = None\<rparr>"

text \<open>\<open>newTask\<close> allocates: the address of the new task and the store after it.\<close>

definition newTask :: "bytes \<Rightarrow> nat option \<Rightarrow> queue \<Rightarrow> nat option \<times> queue" where
  "newTask b n q =
     (Some (fresh q),
      q\<lparr>tasks := (tasks q)(fresh q := \<lparr>byteTask = b, nxt = n\<rparr>), fresh := Suc (fresh q)\<rparr>)"

definition NewQueue :: queue where
  "NewQueue = \<lparr>tasks = (\<lambda>a. zero_task), fresh = 1, head = Some 0, tail = Some 0\<rparr>"

text \<open>
  Both operations are a retry loop. One pass through a loop body either ends in
  \<open>continue\<close> (or in a failed compare-and-swap), with the queue as the pass left it, or
  leaves the loop with a value. The loops are run by one thread with nothing interleaved,
  so a compare-and-swap sees what the thread has just read.
\<close>

datatype 'a pass = Retry queue | Leave 'a

text \<open>
  The body of the loop of \<open>Enqueue\<close>. It leaves with \<open>expectTail\<close>, which the
  compare-and-swap after the loop needs, and the queue.
\<close>

definition Enqueue_pass :: "nat option \<Rightarrow> queue \<Rightarrow> (panic + (nat option \<times> queue)) pass" where
  "Enqueue_pass newT q =
     (let expectTail = tail q in
      case expectTail of
        None \<Rightarrow> Leave (Inl NilPointerDereference)
      | Some t \<Rightarrow>
          (let expectTailNext = nxt (tasks q t) in
           if tail q \<noteq> expectTail then Retry q
           else if expectTailNext \<noteq> None then
             Retry (if tail q = expectTail then q\<lparr>tail := expectTailNext\<rparr> else q)
           else
             (case tail q of
                None \<Rightarrow> Leave (Inl NilPointerDereference)
              | Some t' \<Rightarrow>
                  if nxt (tasks q t') = expectTailNext
                  then Leave (Inr (expectTail,
                         q\<lparr>tasks := (tasks q)(t' := (tasks q t')\<lparr>nxt := newT\<rparr>)\<rparr>))
                  else Retry q)))"

text \<open>
  A loop with at most \<open>k\<close> passes; \<open>None\<close> means that \<open>k\<close> passes did not leave it.
\<close>

primrec Enqueue_loop :: "nat \<Rightarrow> nat option \<Rightarrow> queue \<Rightarrow> (panic + (nat option \<times> queue)) option" where
  "Enqueue_loop 0 newT q = None"
| "Enqueue_loop (Suc k) newT q =
     (case Enqueue_pass newT q of
        Retry q' \<Rightarrow> Enqueue_loop k newT q'
      | Leave r \<Rightarrow> Some r)"

definition Enqueue :: "nat \<Rightarrow> queue \<Rightarrow> bytes \<Rightarrow> (panic + queue) option" where
  "Enqueue k q b =
     (case newTask b None q of
        (newT, q1) \<Rightarrow>
          (case Enqueue_loop k newT q1 of
             None \<Rightarrow> None
           | Some (Inl e) \<Rightarrow> Some (Inl e)
           | Some (Inr (expectTail, q2)) \<Rightarrow>
               Some (Inr (if tail q2 = expectTail then q2\<lparr>tail := newT\<rparr> else q2))))"

text \<open>What \<open>Dequeue\<close> returns on an empty queue: \<open>json.Marshal(Data{Value: "sentinel"})\<close>.\<close>

definition empty_marker :: bytes where
  "empty_marker = marshal_Data (Data [] 0 [] (Fin 0) ''sentinel'')"

text \<open>The body of the loop of \<open>Dequeue\<close>; it leaves with the bytes returned and the queue.\<close>

definition Dequeue_pass :: "queue \<Rightarrow> (panic + (bytes \<times> queue)) pass" where
  "Dequeue_pass q =
     (let expectSentinel = head q in
      case expectSentinel of
        None \<Rightarrow> Leave (Inl NilPointerDereference)
      | Some h \<Rightarrow>
          (let expectRemoved = nxt (tasks q h); expectTail = tail q in
           if head q \<noteq> expectSentinel then Retry q
           else
             (case expectRemoved of
                None \<Rightarrow> Leave (Inr (empty_marker, q))
              | Some r \<Rightarrow>
                  if expectTail = expectSentinel
                  then Retry (if tail q = expectTail then q\<lparr>tail := expectRemoved\<rparr> else q)
                  else
                    (let dequeued = byteTask (tasks q r) in
                     if head q = expectSentinel
                     then Leave (Inr (dequeued, q\<lparr>head := expectRemoved\<rparr>))
                     else Retry q))))"

primrec Dequeue :: "nat \<Rightarrow> queue \<Rightarrow> (panic + (bytes \<times> queue)) option" where
  "Dequeue 0 q = None"
| "Dequeue (Suc k) q =
     (case Dequeue_pass q of
        Retry q' \<Rightarrow> Dequeue k q'
      | Leave r \<Rightarrow> Some r)"

subsection \<open>Sequences of calls by one thread, and the FIFO list they are compared with\<close>

datatype qcall = Enq bytes | Deq

text \<open>The calls run in order on the queue; the result lists what each \<open>Dequeue\<close> returned.\<close>

fun run_queue :: "nat \<Rightarrow> queue \<Rightarrow> qcall list \<Rightarrow> (panic + (bytes list \<times> queue)) option" where
  "run_queue k q [] = Some (Inr ([], q))"
| "run_queue k q (Enq b # cs) =
     (case Enqueue k q b of
        None \<Rightarrow> None
      | Some (Inl e) \<Rightarrow> Some (Inl e)
      | Some (Inr q') \<Rightarrow> run_queue k q' cs)"
| "run_queue k q (Deq # cs) =
     (case Dequeue k q of
        None \<Rightarrow> None
      | Some (Inl e) \<Rightarrow> Some (Inl e)
      | Some (Inr (b, q')) \<Rightarrow>
          (case run_queue k q' cs of
             None \<Rightarrow> None
           | Some (Inl e) \<Rightarrow> Some (Inl e)
           | Some (Inr (bs, q'')) \<Rightarrow> Some (Inr (b # bs, q''))))"

text \<open>
  The functional FIFO of the specification: a list with the oldest payload first.
  A dequeue yields the oldest payload, or \<open>None\<close> when none remains. \<open>fifo_run\<close> gives
  what each dequeue yields and the payloads left at the end.
\<close>

fun fifo_run :: "bytes list \<Rightarrow> qcall list \<Rightarrow> bytes option list \<times> bytes list" where
  "fifo_run xs [] = ([], xs)"
| "fifo_run xs (Enq b # cs) = fifo_run (xs @ [b]) cs"
| "fifo_run [] (Deq # cs) = (case fifo_run [] cs of (outs, left) \<Rightarrow> (None # outs, left))"
| "fifo_run (x # xs) (Deq # cs) = (case fifo_run xs cs of (outs, left) \<Rightarrow> (Some x # outs, left))"

fun enqueued :: "qcall list \<Rightarrow> bytes list" where
  "enqueued [] = []"
| "enqueued (Enq b # cs) = b # enqueued cs"
| "enqueued (Deq # cs) = enqueued cs"

fun served :: "bytes option list \<Rightarrow> bytes list" where
  "served [] = []"
| "served (None # outs) = served outs"
| "served (Some b # outs) = b # served outs"

fun returned :: "bytes option \<Rightarrow> bytes" where
  "returned None = empty_marker"
| "returned (Some b) = b"

text \<open>
  The tasks linked behind address \<open>a\<close>: \<open>chain ts a as\<close> holds when following \<open>next\<close> from
  \<open>a\<close> visits exactly the addresses \<open>as\<close> and then reaches nil.
\<close>

fun chain :: "(nat \<Rightarrow> task) \<Rightarrow> nat \<Rightarrow> nat list \<Rightarrow> bool" where
  "chain ts a [] = (nxt (ts a) = None)"
| "chain ts a (b # bs) = (nxt (ts a) = Some b \<and> chain ts b bs)"

text \<open>
  The queue between two calls of a single thread holds the payloads \<open>xs\<close>: \<open>head\<close> is the
  sentinel task, the tasks linked behind it carry \<open>xs\<close>, \<open>tail\<close> is the last task.
\<close>

definition holds :: "queue \<Rightarrow> bytes list \<Rightarrow> bool" where
  "holds q xs =
     (\<exists>h as. head q = Some h \<and> chain (tasks q) h as \<and> distinct (h # as) \<and>
        list_all (\<lambda>a. a < fresh q) (h # as) \<and> tail q = Some (last (h # as)) \<and>
        map (\<lambda>a. byteTask (tasks q a)) as = xs)"

section \<open>Package lock\<close>

text \<open>
  The read-write lock is a mutex \<open>cond.L\<close>, a condition variable on it and \<open>readCount\<close>.
  Every access to \<open>readCount\<close> happens with \<open>cond.L\<close> held, so the run of a thread
  through one of the four calls from acquiring \<open>cond.L\<close> to releasing it (by \<open>Unlock\<close>, or inside \<open>cond.Wait\<close>) is
  one step of the model, and the threads interleave between steps. \<open>Lock\<close> returns with
  \<open>cond.L\<close> still held; \<open>Unlock\<close> releases it.
\<close>

record rwmutex =
  cond_L :: bool
  readCount :: int

text \<open>Where a thread is with respect to the lock.\<close>

datatype place =
    Outside
  | RLock_waiting
  | Reading
  | Lock_waiting
  | Writing

record lock_state =
  rw :: rwmutex
  place_of :: "nat \<Rightarrow> place"

definition NewRWMutex :: rwmutex where
  "NewRWMutex = \<lparr>cond_L = False, readCount = 0\<rparr>"

definition lock_init :: lock_state where
  "lock_init = \<lparr>rw = NewRWMutex, place_of = (\<lambda>t. Outside)\<rparr>"

text \<open>
  The four calls. A step of thread \<open>t\<close> in a call is possible only when \<open>cond.L\<close> is free
  (except \<open>Unlock\<close>, whose caller holds it); \<open>None\<close> says the step is not possible in this
  state. A thread in \<open>cond.Wait\<close> may try again at any time: the model does not track
  signals, so it allows every wake-up the condition variable can deliver and more.
  \<open>RUnlock\<close> by a thread that is not reading and \<open>Unlock\<close> by a thread that is not writing
  are excluded, as the comments on the two calls require.
\<close>

datatype lock_call = RLock | RUnlock | Lock | Unlock

fun lock_step :: "nat \<times> lock_call \<Rightarrow> lock_state \<Rightarrow> lock_state option" where
  "lock_step (t, RLock) s =
     (if (place_of s t = Outside \<or> place_of s t = RLock_waiting) \<and> \<not> cond_L (rw s)
      then (if readCount (rw s) > 64
            then Some (s\<lparr>place_of := (place_of s)(t := RLock_waiting)\<rparr>)
            else Some (s\<lparr>rw := (rw s)\<lparr>readCount := readCount (rw s) + 1\<rparr>,
                         place_of := (place_of s)(t := Reading)\<rparr>))
      else None)"
| "lock_step (t, RUnlock) s =
     (if place_of s t = Reading \<and> \<not> cond_L (rw s)
      then Some (s\<lparr>rw := (rw s)\<lparr>readCount := readCount (rw s) - 1\<rparr>,
                   place_of := (place_of s)(t := Outside)\<rparr>)
      else None)"
| "lock_step (t, Lock) s =
     (if (place_of s t = Outside \<or> place_of s t = Lock_waiting) \<and> \<not> cond_L (rw s)
      then (if readCount (rw s) \<noteq> 0
            then Some (s\<lparr>place_of := (place_of s)(t := Lock_waiting)\<rparr>)
            else Some (s\<lparr>rw := (rw s)\<lparr>cond_L := True\<rparr>,
                         place_of := (place_of s)(t := Writing)\<rparr>))
      else None)"
| "lock_step (t, Unlock) s =
     (if place_of s t = Writing
      then Some (s\<lparr>rw := (rw s)\<lparr>cond_L := False\<rparr>,
                   place_of := (place_of s)(t := Outside)\<rparr>)
      else None)"

text \<open>A schedule: which thread takes a step in which call, in order.\<close>

fun lock_run :: "(nat \<times> lock_call) list \<Rightarrow> lock_state \<Rightarrow> lock_state option" where
  "lock_run [] s = Some s"
| "lock_run (e # es) s = (case lock_step e s of None \<Rightarrow> None | Some s' \<Rightarrow> lock_run es s')"

text \<open>The threads between a completed \<open>RLock\<close> and the start of their \<open>RUnlock\<close>.\<close>

definition readers :: "lock_state \<Rightarrow> nat set" where
  "readers s = {t. place_of s t = Reading}"

text \<open>
  The invariant behind the cap: the readers are finitely many, \<open>readCount\<close> counts them,
  and it never exceeds 65.
\<close>

definition counted :: "lock_state \<Rightarrow> bool" where
  "counted s = (finite (readers s) \<and> readCount (rw s) = int (card (readers s)) \<and>
                readCount (rw s) \<le> 65)"

section \<open>Command twitter\<close>

subsection \<open>\<open>json.Unmarshal\<close> into the request and the post structs\<close>

datatype json_error = SyntaxError | UnmarshalTypeError

record ClientMessage =
  Command :: string
  Id :: int
  Body :: string
  Timestamp :: float64
  Value :: string

text \<open>\<open>var cm ClientMessage\<close>: the zero value.\<close>

definition zero_ClientMessage :: ClientMessage where
  "zero_ClientMessage = \<lparr>Command = [], Id = 0, Body = [], Timestamp = Fin 0, Value = []\<rparr>"

text \<open>
  A key of the JSON object selects the field whose tag it equals, exactly or under case
  folding. The tags here are ASCII, so folding means: ASCII letters without their case,
  and the two non-ASCII letters that fold to ASCII ones, the long s (bytes C5 BF) to \<open>s\<close>
  and the Kelvin sign (bytes E2 84 AA) to \<open>k\<close>.
\<close>

definition fold_byte :: "char \<Rightarrow> char" where
  "fold_byte c =
     (case map_of (zip ''ABCDEFGHIJKLMNOPQRSTUVWXYZ'' ''abcdefghijklmnopqrstuvwxyz'') c of
        Some l \<Rightarrow> l
      | None \<Rightarrow> c)"

fun fold_key :: "string \<Rightarrow> string" where
  "fold_key [] = []"
| "fold_key [c] = [fold_byte c]"
| "fold_key [c, d] =
     (if c = CHR 0xC5 \<and> d = CHR 0xBF then ''s'' else [fold_byte c, fold_byte d])"
| "fold_key (c # d # e # cs) =
     (if c = CHR 0xC5 \<and> d = CHR 0xBF then CHR ''s'' # fold_key (e # cs)
      else if c = CHR 0xE2 \<and> d = CHR 0x84 \<and> e = CHR 0xAA then CHR ''k'' # fold_key cs
      else fold_byte c # fold_key (d # e # cs))"

text \<open>
  Storing one JSON value into a field of each type: the new value of the field and the
  error, if any. \<open>null\<close> leaves these fields alone. A string field takes a JSON string;
  an \<open>int\<close> field (64 bits) takes an integer literal in range; a \<open>float64\<close> field takes
  any number, rounded to the nearest float64. A number out of the float64 range is
  reported as an \<open>UnmarshalTypeError\<close>, and the field receives what \<open>strconv.ParseFloat\<close>
  returns with its range error, the infinity of the sign of the number (releases of
  \<open>encoding/json\<close> differ here, older ones leave the field as it was; the theorems on the
  claims decode no such number). Any other \<open>UnmarshalTypeError\<close> leaves the field as it was.
\<close>

fun set_string :: "json \<Rightarrow> string \<Rightarrow> string \<times> json_error option" where
  "set_string (JString x) old = (x, None)"
| "set_string JNull old = (old, None)"
| "set_string _ old = (old, Some UnmarshalTypeError)"

fun set_int :: "json \<Rightarrow> int \<Rightarrow> int \<times> json_error option" where
  "set_int (JInt n) old =
     (if - (2 ^ 63) \<le> n \<and> n < 2 ^ 63 then (n, None) else (old, Some UnmarshalTypeError))"
| "set_int JNull old = (old, None)"
| "set_int _ old = (old, Some UnmarshalTypeError)"

definition parse_float64 :: "real \<Rightarrow> float64 \<times> json_error option" where
  "parse_float64 r =
     (let x = nearest_float64 r
      in if \<bar>x\<bar> < 2 ^ 1024 then (Fin x, None)
         else (if 0 < r then PosInf else NegInf, Some UnmarshalTypeError))"

fun set_float64 :: "json \<Rightarrow> float64 \<Rightarrow> float64 \<times> json_error option" where
  "set_float64 (JInt n) old = parse_float64 (of_int n)"
| "set_float64 (JFrac r) old = parse_float64 r"
| "set_float64 JNull old = (old, None)"
| "set_float64 _ old = (old, Some UnmarshalTypeError)"

text \<open>The decoder keeps the first error and goes on with the next member.\<close>

definition first_error :: "json_error option \<Rightarrow> json_error option \<Rightarrow> json_error option" where
  "first_error saved e = (case saved of None \<Rightarrow> e | Some x \<Rightarrow> Some x)"

definition ClientMessage_member ::
    "ClientMessage \<times> json_error option \<Rightarrow> string \<times> json \<Rightarrow> ClientMessage \<times> json_error option" where
  "ClientMessage_member acc kv =
     (case acc of (cm, saved) \<Rightarrow>
      case kv of (k, v) \<Rightarrow>
        if fold_key k = ''command'' then
          (case set_string v (Command cm) of (x, e) \<Rightarrow> (cm\<lparr>Command := x\<rparr>, first_error saved e))
        else if fold_key k = ''id'' then
          (case set_int v (Id cm) of (x, e) \<Rightarrow> (cm\<lparr>Id := x\<rparr>, first_error saved e))
        else if fold_key k = ''body'' then
          (case set_string v (Body cm) of (x, e) \<Rightarrow> (cm\<lparr>Body := x\<rparr>, first_error saved e))
        else if fold_key k = ''timestamp'' then
          (case set_float64 v (Timestamp cm) of (x, e) \<Rightarrow>
             (cm\<lparr>Timestamp := x\<rparr>, first_error saved e))
        else if fold_key k = ''value'' then
          (case set_string v (Value cm) of (x, e) \<Rightarrow> (cm\<lparr>Value := x\<rparr>, first_error saved e))
        else (cm, saved))"

text \<open>
  \<open>var cm ClientMessage; err := json.Unmarshal(b, &cm)\<close>: the struct after the call and
  the error. Bytes that are not a JSON text are a \<open>SyntaxError\<close> and nothing is stored;
  an object is stored member by member, in order; \<open>null\<close> stores nothing; any other
  value is an \<open>UnmarshalTypeError\<close>.
\<close>

fun Unmarshal_ClientMessage :: "bytes \<Rightarrow> ClientMessage \<times> json_error option" where
  "Unmarshal_ClientMessage (Garbage raw) = (zero_ClientMessage, Some SyntaxError)"
| "Unmarshal_ClientMessage (Json (JObject kvs)) =
     foldl ClientMessage_member (zero_ClientMessage, None) kvs"
| "Unmarshal_ClientMessage (Json JNull) = (zero_ClientMessage, None)"
| "Unmarshal_ClientMessage (Json _) = (zero_ClientMessage, Some UnmarshalTypeError)"

text \<open>\<open>PostData\<close>: a body tagged \<open>body\<close> and a timestamp tagged \<open>timestamp\<close>.\<close>

datatype PostData = PostData string float64

definition PostData_member ::
    "PostData \<times> json_error option \<Rightarrow> string \<times> json \<Rightarrow> PostData \<times> json_error option" where
  "PostData_member acc kv =
     (case acc of (PostData body timestamp, saved) \<Rightarrow>
      case kv of (k, v) \<Rightarrow>
        if fold_key k = ''body'' then
          (case set_string v body of (x, e) \<Rightarrow> (PostData x timestamp, first_error saved e))
        else if fold_key k = ''timestamp'' then
          (case set_float64 v timestamp of (x, e) \<Rightarrow> (PostData body x, first_error saved e))
        else (PostData body timestamp, saved))"

fun Unmarshal_PostData :: "bytes \<Rightarrow> PostData \<times> json_error option" where
  "Unmarshal_PostData (Garbage raw) = (PostData [] (Fin 0), Some SyntaxError)"
| "Unmarshal_PostData (Json (JObject kvs)) = foldl PostData_member (PostData [] (Fin 0), None) kvs"
| "Unmarshal_PostData (Json JNull) = (PostData [] (Fin 0), None)"
| "Unmarshal_PostData (Json _) = (PostData [] (Fin 0), Some UnmarshalTypeError)"

subsection \<open>Output\<close>

text \<open>
  What the program prints, one value per print call: the usage text, the line
  \<open>error: \<close> followed by a decoding error, an indented \<open>ServerSuccessMessage\<close> and an
  indented \<open>ServerFeedMessage\<close>. Every print of the program is \<open>fmt.Println\<close> or
  \<open>fmt.Printf\<close>, which write to standard output; \<open>stderr\<close> is there to say so.
\<close>

datatype printed =
    Usage
  | Error_line json_error
  | ServerSuccessMessage bool int
  | ServerFeedMessage int "PostData list"

record streams =
  stdout :: "printed list"
  stderr :: "printed list"

definition emit :: "printed \<Rightarrow> streams \<Rightarrow> streams" where
  "emit x io = io\<lparr>stdout := stdout io @ [x]\<rparr>"

definition printUsage :: "streams \<Rightarrow> streams" where
  "printUsage io = emit Usage io"

text \<open>\<open>if err != nil { fmt.Println("error: ", err) }\<close>\<close>

definition report :: "json_error option \<Rightarrow> streams \<Rightarrow> streams" where
  "report err io = (case err of None \<Rightarrow> io | Some e \<Rightarrow> emit (Error_line e) io)"

subsection \<open>The tasks\<close>

definition addPostTask :: "feed \<Rightarrow> ClientMessage \<Rightarrow> streams \<Rightarrow> panic + (feed \<times> streams)" where
  "addPostTask f task io =
     (case Add f (Body task) (Timestamp task) of
        Inl p \<Rightarrow> Inl p
      | Inr f' \<Rightarrow> Inr (f', emit (ServerSuccessMessage True (Id task)) io))"

definition removePostTask :: "feed \<Rightarrow> ClientMessage \<Rightarrow> streams \<Rightarrow> panic + (feed \<times> streams)" where
  "removePostTask f task io =
     (case Remove f (Timestamp task) of
        Inl p \<Rightarrow> Inl p
      | Inr (f', removedBool) \<Rightarrow> Inr (f', emit (ServerSuccessMessage removedBool (Id task)) io))"

definition containsPostTask :: "feed \<Rightarrow> ClientMessage \<Rightarrow> streams \<Rightarrow> panic + (feed \<times> streams)" where
  "containsPostTask f task io =
     (case Contains f (Timestamp task) of
        Inl p \<Rightarrow> Inl p
      | Inr containsBool \<Rightarrow> Inr (f, emit (ServerSuccessMessage containsBool (Id task)) io))"

text \<open>The loop of \<open>showFeedTask\<close> over \<open>postByteArray\<close>.\<close>

fun decode_posts :: "bytes list \<Rightarrow> streams \<Rightarrow> PostData list \<Rightarrow> PostData list \<times> streams" where
  "decode_posts [] io feedArray = (feedArray, io)"
| "decode_posts (post # rest) io feedArray =
     (case Unmarshal_PostData post of
        (pd, err) \<Rightarrow> decode_posts rest (report err io) (feedArray @ [pd]))"

definition showFeedTask :: "feed \<Rightarrow> ClientMessage \<Rightarrow> streams \<Rightarrow> panic + (feed \<times> streams)" where
  "showFeedTask f task io =
     (case ShowFeed f of
        Inl p \<Rightarrow> Inl p
      | Inr postByteArray \<Rightarrow>
          (case decode_posts postByteArray io [] of
             (feedArray, io') \<Rightarrow> Inr (f, emit (ServerFeedMessage (Id task) feedArray) io')))"

subsection \<open>Reading standard input\<close>

text \<open>
  Both modes read standard input with \<open>bufio.NewScanner(os.Stdin)\<close> and
  \<open>for scanner.Scan() { ... scanner.Bytes() ... }\<close>. The scanner splits the input into
  lines and keeps its default buffer, so \<open>Scan\<close> hands over a line only when the line
  has fewer than \<open>MaxScanTokenSize\<close> bytes before its end-of-line marker. At a longer
  line \<open>Scan\<close> returns false, as it does at the end of the input, and neither loop looks
  at \<open>scanner.Err()\<close>: the loop ends there and the rest of the input is not read. A line
  of the input is therefore modelled by the number of its bytes together with what these
  bytes spell.
\<close>

definition MaxScanTokenSize :: nat where
  "MaxScanTokenSize = 64 * 1024"

type_synonym line = "nat \<times> bytes"

subsection \<open>Sequential mode\<close>

text \<open>The loop of \<open>main\<close> over the lines of standard input when \<open>len(os.Args) != 3\<close>.\<close>

fun sequential :: "line list \<Rightarrow> feed \<Rightarrow> streams \<Rightarrow> panic + (feed \<times> streams)" where
  "sequential [] f io = Inr (f, io)"
| "sequential ((n, task) # rest) f io =
     (if \<not> n < MaxScanTokenSize then Inr (f, io)
      else
        (case Unmarshal_ClientMessage task of
           (cm, err) \<Rightarrow>
             if Command cm = ''ADD'' then
               (case addPostTask f cm (report err io) of
                  Inl p \<Rightarrow> Inl p | Inr (f', io') \<Rightarrow> sequential rest f' io')
             else if Command cm = ''REMOVE'' then
               (case removePostTask f cm (report err io) of
                  Inl p \<Rightarrow> Inl p | Inr (f', io') \<Rightarrow> sequential rest f' io')
             else if Command cm = ''CONTAINS'' then
               (case containsPostTask f cm (report err io) of
                  Inl p \<Rightarrow> Inl p | Inr (f', io') \<Rightarrow> sequential rest f' io')
             else if Command cm = ''FEED'' then
               (case showFeedTask f cm (report err io) of
                  Inl p \<Rightarrow> Inl p | Inr (f', io') \<Rightarrow> sequential rest f' io')
             else if Command cm = ''DONE'' then Inr (f, report err io)
             else sequential rest f (report err io)))"

subsection \<open>Concurrent mode: the producer and the block of a consumer\<close>

text \<open>
  Of \<open>SharedContext\<close> the counter and the flag; the mutex, the condition variable and the
  wait group only order the threads. \<open>numOfTasks\<close> is an \<open>int64\<close> that counts lines, far
  from its bounds.
\<close>

record SharedContext =
  numOfTasks :: int
  doneBool :: bool

text \<open>
  \<open>producer\<close> over the lines of standard input, with no consumer step in between. The
  first argument bounds the passes of each \<open>Enqueue\<close> loop.
\<close>

fun producer :: "nat \<Rightarrow> line list \<Rightarrow> queue \<Rightarrow> SharedContext \<Rightarrow> streams \<Rightarrow>
    (panic + (queue \<times> SharedContext \<times> streams)) option" where
  "producer k [] q ctx io = Some (Inr (q, ctx, io))"
| "producer k ((n, task) # rest) q ctx io =
     (if \<not> n < MaxScanTokenSize then Some (Inr (q, ctx, io))
      else
        (case Unmarshal_ClientMessage task of
           (cm, err) \<Rightarrow>
             if Command cm \<noteq> ''DONE'' then
               (case Enqueue k q task of
                  None \<Rightarrow> None
                | Some (Inl p) \<Rightarrow> Some (Inl p)
                | Some (Inr q') \<Rightarrow>
                    producer k rest q' (ctx\<lparr>numOfTasks := numOfTasks ctx + 1\<rparr>) (report err io))
             else Some (Inr (q, ctx\<lparr>doneBool := True\<rparr>, report err io))))"

text \<open>
  The loop of \<open>consumer\<close> that fills \<open>blockOfTasks\<close>, with no step of another thread in
  between; the second argument is the number of iterations left (\<open>block - i\<close>).
\<close>

fun grab :: "nat \<Rightarrow> nat \<Rightarrow> queue \<Rightarrow> SharedContext \<Rightarrow> streams \<Rightarrow> ClientMessage list \<Rightarrow>
    (panic + (queue \<times> SharedContext \<times> streams \<times> ClientMessage list)) option" where
  "grab k 0 q ctx io blockOfTasks = Some (Inr (q, ctx, io, blockOfTasks))"
| "grab k (Suc i) q ctx io blockOfTasks =
     (case Dequeue k q of
        None \<Rightarrow> None
      | Some (Inl p) \<Rightarrow> Some (Inl p)
      | Some (Inr (b, q')) \<Rightarrow>
          (case Unmarshal_ClientMessage b of
             (cm, err) \<Rightarrow>
               if err \<noteq> None then Some (Inr (q', ctx, report err io, blockOfTasks))
               else if Value cm = ''sentinel'' then Some (Inr (q', ctx, io, blockOfTasks))
               else grab k i q' (ctx\<lparr>numOfTasks := numOfTasks ctx - 1\<rparr>) io
                      (blockOfTasks @ [cm])))"

text \<open>The loop of \<open>consumer\<close> that performs the tasks of the block.\<close>

fun perform :: "ClientMessage list \<Rightarrow> feed \<Rightarrow> streams \<Rightarrow> panic + (feed \<times> streams)" where
  "perform [] f io = Inr (f, io)"
| "perform (task # rest) f io =
     (if Command task = ''ADD'' then
        (case addPostTask f task io of Inl p \<Rightarrow> Inl p | Inr (f', io') \<Rightarrow> perform rest f' io')
      else if Command task = ''REMOVE'' then
        (case removePostTask f task io of Inl p \<Rightarrow> Inl p | Inr (f', io') \<Rightarrow> perform rest f' io')
      else if Command task = ''CONTAINS'' then
        (case containsPostTask f task io of Inl p \<Rightarrow> Inl p | Inr (f', io') \<Rightarrow> perform rest f' io')
      else if Command task = ''FEED'' then
        (case showFeedTask f task io of Inl p \<Rightarrow> Inl p | Inr (f', io') \<Rightarrow> perform rest f' io')
      else perform rest f io)"

subsection \<open>\<open>main\<close>\<close>

text \<open>
  \<open>strconv.ParseInt(s, 10, 64)\<close> with the error dropped: an optional sign and decimal
  digits give their value, clamped to the 64-bit range; anything else gives 0.
\<close>

definition digit :: "char \<Rightarrow> nat option" where
  "digit c = map_of (zip ''0123456789'' [0, 1, 2, 3, 4, 5, 6, 7, 8, 9]) c"

fun digits_value :: "nat \<Rightarrow> string \<Rightarrow> nat option" where
  "digits_value acc [] = Some acc"
| "digits_value acc (c # cs) =
     (case digit c of None \<Rightarrow> None | Some d \<Rightarrow> digits_value (10 * acc + d) cs)"

definition ParseInt :: "string \<Rightarrow> int" where
  "ParseInt s =
     (let neg = (s \<noteq> [] \<and> hd s = CHR ''-'');
          s' = (if s \<noteq> [] \<and> (hd s = CHR ''+'' \<or> hd s = CHR ''-'') then tl s else s)
      in if s' = [] then 0
         else (case digits_value 0 s' of
                 None \<Rightarrow> 0
               | Some un \<Rightarrow>
                   if neg then max (- int un) (- (2 ^ 63)) else min (int un) (2 ^ 63 - 1)))"

text \<open>
  \<open>main\<close> on the argument vector (the program name first) and the lines of standard
  input. In sequential mode the result is what the loop leaves; in concurrent mode the
  model records the number of consumers spawned and their block size.
\<close>

datatype run = Sequential "panic + (feed \<times> streams)" | Concurrent int int

definition main :: "string list \<Rightarrow> line list \<Rightarrow> run" where
  "main os_Args stdin_lines =
     (if length os_Args \<noteq> 3
      then Sequential (sequential stdin_lines NewFeed \<lparr>stdout = [], stderr = []\<rparr>)
      else Concurrent (ParseInt (os_Args ! 1)) (ParseInt (os_Args ! 2)))"


section \<open>Properties of the feed\<close>

subsection \<open>Order on timestamps and the shape of an ascending list\<close>

lemma flt_trans: "flt a b \<Longrightarrow> flt b c \<Longrightarrow> flt a c"
  by (cases a; cases b; cases c) auto

lemma ascending_PostD:
  "ascending (Post b t (Post b' t' n')) \<Longrightarrow> flt t t' \<and> ascending (Post b' t' n') \<and> is_finite t"
  by (cases t) auto

lemma ascending_above:
  "ascending (Post b t n) \<Longrightarrow> p \<in> set (posts_from n) \<Longrightarrow> flt t (snd p)"
proof (induction n arbitrary: b t p)
  case nil
  then show ?case by simp
next
  case (Post b' t' n')
  from Post.prems(1) have a: "flt t t'" and b: "ascending (Post b' t' n')"
    using ascending_PostD by blast+
  from Post.prems(2) have "p = (b', t') \<or> p \<in> set (posts_from n')" by simp
  then show ?case
  proof
    assume "p = (b', t')" with a show ?thesis by simp
  next
    assume "p \<in> set (posts_from n')"
    with Post.IH[OF b] have "flt t' (snd p)" .
    with a show ?thesis by (rule flt_trans)
  qed
qed

lemma posts_from_eq_Nil: "posts_from n = [] \<longleftrightarrow> n = nil"
  by (cases n) auto

lemma posts_from_inj: "posts_from n = posts_from m \<Longrightarrow> n = m"
proof (induction n arbitrary: m)
  case nil
  then show ?case by (cases m) auto
next
  case (Post b t n)
  then show ?case by (cases m) auto
qed

lemma ascending_imp_shape:
  "ascending n \<Longrightarrow>
   \<exists>ps tb. posts_from n = ps @ [(tb, PosInf)] \<and> (\<forall>p\<in>set ps. is_finite (snd p)) \<and>
           sorted_wrt flt (map snd ps)"
proof (induction n rule: ascending.induct)
  case (2 b n)
  then have "posts_from (Post b PosInf n) = [] @ [(b, PosInf)]" by simp
  then show ?case by force
next
  case (4 b r b' t' n')
  from 4(2) have asc: "ascending (Post b' t' n')" and lt: "flt (Fin r) t'" by auto
  from 4(1)[OF asc] obtain ps tb where ps: "posts_from (Post b' t' n') = ps @ [(tb, PosInf)]"
    "\<forall>p\<in>set ps. is_finite (snd p)" "sorted_wrt flt (map snd ps)" by blast
  have above: "\<forall>p\<in>set ps. flt (Fin r) (snd p)"
  proof
    fix p assume "p \<in> set ps"
    then have "p \<in> set (posts_from (Post b' t' n'))" using ps(1) by simp
    with ascending_above[OF 4(2)] show "flt (Fin r) (snd p)" by blast
  qed
  have "posts_from (Post b (Fin r) (Post b' t' n')) = ((b, Fin r) # ps) @ [(tb, PosInf)]"
    using ps(1) by simp
  moreover have "\<forall>p\<in>set ((b, Fin r) # ps). is_finite (snd p)" using ps(2) by simp
  moreover have "sorted_wrt flt (map snd ((b, Fin r) # ps))" using ps(3) above by simp
  ultimately show ?case by blast
qed simp_all

lemma shape_imp_ascending:
  "posts_from n = ps @ [(tb, PosInf)] \<Longrightarrow> \<forall>p\<in>set ps. is_finite (snd p) \<Longrightarrow>
   sorted_wrt flt (map snd ps) \<Longrightarrow> ascending n"
proof (induction ps arbitrary: n)
  case Nil
  then show ?case by (cases n) (auto simp: posts_from_eq_Nil)
next
  case (Cons p ps)
  from Cons.prems(1) obtain n1 where n: "n = Post (fst p) (snd p) n1"
    and n1: "posts_from n1 = ps @ [(tb, PosInf)]"
    by (cases n) auto
  from Cons.prems(2) obtain r where r: "snd p = Fin r" by (cases "snd p") auto
  from Cons.IH[OF n1] Cons.prems have asc: "ascending n1" by simp
  from n1 obtain b' t' n' where n1': "n1 = Post b' t' n'" by (cases n1) auto
  have "flt (Fin r) t'"
  proof (cases ps)
    case Nil
    with n1 n1' show ?thesis by simp
  next
    case (Cons q qs)
    with n1 n1' have "t' = snd q" by auto
    with Cons Cons.prems(3) r show ?thesis by simp
  qed
  with asc n n1' r show ?case by simp
qed

lemma ascending_iff_shape:
  "ascending n \<longleftrightarrow>
   (\<exists>ps tb. posts_from n = ps @ [(tb, PosInf)] \<and> (\<forall>p\<in>set ps. is_finite (snd p)) \<and>
           sorted_wrt flt (map snd ps))"
  using ascending_imp_shape shape_imp_ascending by blast


subsection \<open>The walks, read on the list of posts\<close>

lemma add_walk_posts:
  "add_walk b t n = Inr n' \<Longrightarrow>
   posts_from n' = takeWhile (\<lambda>p. flt (snd p) t) (posts_from n) @ (b, t) #
                   dropWhile (\<lambda>p. flt (snd p) t) (posts_from n)"
proof (induction n arbitrary: n')
  case nil
  then show ?case by simp
next
  case (Post cb ct cn)
  show ?case
  proof (cases "flt ct t")
    case True
    with Post.prems obtain cn' where cn': "add_walk b t cn = Inr cn'" "n' = Post cb ct cn'"
      by (auto split: sum.splits)
    with Post.IH[OF cn'(1)] True show ?thesis by simp
  next
    case False
    with Post.prems show ?thesis by (auto simp: newPost_def)
  qed
qed

lemma add_walk_returns:
  "\<exists>p\<in>set (posts_from n). \<not> flt (snd p) t \<Longrightarrow> \<exists>n'. add_walk b t n = Inr n'"
proof (induction n)
  case nil
  then show ?case by simp
next
  case (Post cb ct cn)
  show ?case
  proof (cases "flt ct t")
    case True
    with Post.prems have "\<exists>p\<in>set (posts_from cn). \<not> flt (snd p) t" by auto
    from Post.IH[OF this] obtain cn' where "add_walk b t cn = Inr cn'" by blast
    with True show ?thesis by simp
  next
    case False
    then show ?thesis by simp
  qed
qed

lemma add_walk_panics:
  "\<forall>p\<in>set (posts_from n). flt (snd p) t \<Longrightarrow> add_walk b t n = Inl NilPointerDereference"
  by (induction n) auto

lemma contains_walk_panics:
  "\<forall>p\<in>set (posts_from n). flt (snd p) t \<Longrightarrow> contains_walk t n = Inl NilPointerDereference"
  by (induction n) auto

lemma remove_walk_panics:
  "\<forall>p\<in>set (posts_from n). flt (snd p) t \<Longrightarrow> remove_walk t n = Inl NilPointerDereference"
  by (induction n) auto

text \<open>Walks over a list whose finite part is below the target stop at the +infinity sentinel.\<close>

lemma contains_walk_sentinel:
  "posts_from n = ps @ [(tb, PosInf)] \<Longrightarrow> \<forall>p\<in>set ps. is_finite (snd p) \<Longrightarrow>
   contains_walk PosInf n = Inr True"
proof (induction ps arbitrary: n)
  case Nil
  then show ?case by (cases n) (auto simp: posts_from_eq_Nil)
next
  case (Cons p ps)
  from Cons.prems(1) obtain n1 where n: "n = Post (fst p) (snd p) n1"
    and n1: "posts_from n1 = ps @ [(tb, PosInf)]"
    by (cases n) auto
  from Cons.prems(2) obtain r where r: "snd p = Fin r" by (cases "snd p") auto
  from Cons.IH[OF n1] Cons.prems(2) have "contains_walk PosInf n1 = Inr True" by simp
  with n r show ?case by simp
qed

lemma remove_walk_sentinel:
  "posts_from n = ps @ [(tb, PosInf)] \<Longrightarrow> \<forall>p\<in>set ps. is_finite (snd p) \<Longrightarrow>
   \<exists>n'. remove_walk PosInf n = Inr (n', True) \<and> posts_from n' = ps"
proof (induction ps arbitrary: n)
  case Nil
  then show ?case by (cases n) (auto simp: posts_from_eq_Nil)
next
  case (Cons p ps)
  from Cons.prems(1) obtain n1 where n: "n = Post (fst p) (snd p) n1"
    and n1: "posts_from n1 = ps @ [(tb, PosInf)]"
    by (cases n) auto
  from Cons.prems(2) obtain r where r: "snd p = Fin r" by (cases "snd p") auto
  from Cons.IH[OF n1] Cons.prems(2) obtain n1' where
    "remove_walk PosInf n1 = Inr (n1', True)" "posts_from n1' = ps" by auto
  with n r show ?case by (cases p) simp
qed

text \<open>Walks for a finite target over an ascending list.\<close>

lemma contains_walk_ascending:
  "ascending n \<Longrightarrow> contains_walk (Fin r) n = Inr (Fin r \<in> snd ` set (posts_from n))"
proof (induction n rule: ascending.induct)
  case (4 cb cr b' t' n')
  from 4(2) have asc: "ascending (Post b' t' n')" by simp
  show ?case
  proof (cases "cr < r")
    case True
    with 4(1)[OF asc] show ?thesis by auto
  next
    case False
    have "Fin r \<notin> snd ` set (posts_from (Post b' t' n'))"
    proof
      assume "Fin r \<in> snd ` set (posts_from (Post b' t' n'))"
      then obtain p where "p \<in> set (posts_from (Post b' t' n'))" "snd p = Fin r"
        by (metis imageE)
      with ascending_above[OF 4(2)] have "flt (Fin cr) (Fin r)" by metis
      with False show False by simp
    qed
    with False show ?thesis by auto
  qed
qed simp_all

lemma remove_walk_ascending:
  "ascending n \<Longrightarrow>
   \<exists>n'. remove_walk (Fin r) n = Inr (n', Fin r \<in> snd ` set (posts_from n)) \<and>
        posts_from n' = filter (\<lambda>p. snd p \<noteq> Fin r) (posts_from n)"
proof (induction n rule: ascending.induct)
  case (4 cb cr b' t' n')
  from 4(2) have asc: "ascending (Post b' t' n')" by simp
  show ?case
  proof (cases "cr < r")
    case True
    from 4(1)[OF asc] obtain m where
      "remove_walk (Fin r) (Post b' t' n') = Inr (m, Fin r \<in> snd ` set (posts_from (Post b' t' n')))"
      "posts_from m = filter (\<lambda>p. snd p \<noteq> Fin r) (posts_from (Post b' t' n'))" by blast
    with True show ?thesis by auto
  next
    case False
    have above: "\<forall>p\<in>set (posts_from (Post b' t' n')). snd p \<noteq> Fin r"
    proof
      fix p assume "p \<in> set (posts_from (Post b' t' n'))"
      with ascending_above[OF 4(2)] have "flt (Fin cr) (snd p)" by blast
      with False show "snd p \<noteq> Fin r" by auto
    qed
    then have "filter (\<lambda>p. snd p \<noteq> Fin r) (posts_from (Post b' t' n')) = posts_from (Post b' t' n')"
      by (simp only: filter_id_conv) 
    moreover from above have "Fin r \<notin> snd ` set (posts_from (Post b' t' n'))" by auto
    ultimately show ?thesis using False by auto
  qed
qed simp_all

lemma show_walk_shape:
  "posts_from n = ps @ [(tb, PosInf)] \<Longrightarrow> \<forall>p\<in>set ps. is_finite (snd p) \<Longrightarrow>
   show_walk n = Inr (map (\<lambda>p. marshal_postBodyTimestamp (fst p) (snd p)) ps)"
proof (induction ps arbitrary: n)
  case Nil
  then show ?case by (cases n) (auto simp: posts_from_eq_Nil)
next
  case (Cons p ps)
  from Cons.prems(1) obtain n1 where n: "n = Post (fst p) (snd p) n1"
    and n1: "posts_from n1 = ps @ [(tb, PosInf)]"
    by (cases n) auto
  from Cons.prems(2) obtain r where r: "snd p = Fin r" by (cases "snd p") auto
  from Cons.IH[OF n1] Cons.prems(2) have
    "show_walk n1 = Inr (map (\<lambda>p. marshal_postBodyTimestamp (fst p) (snd p)) ps)" by simp
  with n r show ?case by simp
qed

lemma reverseFeed_rev: "reverseFeed xs = rev xs"
  by (induction xs) auto


subsection \<open>Add keeps the list sorted\<close>

lemma takeWhile_snoc_stop: "\<not> P s \<Longrightarrow> takeWhile P (ps @ [s]) = takeWhile P ps"
  by (induction ps) auto

lemma dropWhile_snoc_stop: "\<not> P s \<Longrightarrow> dropWhile P (ps @ [s]) = dropWhile P ps @ [s]"
  by (induction ps) auto

lemma set_insert_at:
  "set (takeWhile P ps @ x # dropWhile P ps) = insert x (set ps)"
proof -
  have "set (takeWhile P ps) \<union> set (dropWhile P ps) = set ps"
    by (metis set_append takeWhile_dropWhile_id)
  then show ?thesis by auto
qed

lemma insert_keeps_sorted:
  "sorted_wrt flt (map snd ps) \<Longrightarrow> \<forall>p\<in>set ps. is_finite (snd p) \<Longrightarrow>
   Fin r \<notin> snd ` set ps \<Longrightarrow>
   sorted_wrt flt (map snd (takeWhile (\<lambda>p. flt (snd p) (Fin r)) ps @ (b, Fin r) #
                            dropWhile (\<lambda>p. flt (snd p) (Fin r)) ps))"
proof (induction ps)
  case Nil
  then show ?case by simp
next
  case (Cons p ps)
  from Cons.prems(2) obtain x where x: "snd p = Fin x" by (cases "snd p") auto
  from Cons.prems(3) x have ne: "x \<noteq> r" by auto
  from Cons.prems(1) have above: "\<forall>q\<in>set ps. flt (Fin x) (snd q)" using x by simp
  show ?case
  proof (cases "x < r")
    case True
    let ?rest = "takeWhile (\<lambda>p. flt (snd p) (Fin r)) ps @ (b, Fin r) #
                 dropWhile (\<lambda>p. flt (snd p) (Fin r)) ps"
    have "set ?rest = insert (b, Fin r) (set ps)"
      by (rule set_insert_at)
    with above True have "\<forall>q\<in>set ?rest. flt (Fin x) (snd q)" by auto
    moreover from Cons have "sorted_wrt flt (map snd ?rest)" by simp
    ultimately show ?thesis using True x by auto
  next
    case False
    with ne have lt: "flt (Fin r) (Fin x)" by simp
    have "\<forall>q\<in>set ps. flt (Fin r) (snd q)"
      using above lt flt_trans by blast
    with False x lt Cons.prems(1) show ?thesis by simp
  qed
qed

lemma feed_inv_shape:
  "feed_inv f \<longleftrightarrow>
   (\<exists>hb ps tb. posts_from (start f) = (hb, NegInf) # ps @ [(tb, PosInf)] \<and>
       (\<forall>p\<in>set ps. is_finite (snd p)) \<and> sorted_wrt flt (map snd ps))"
proof
  assume "feed_inv f"
  then obtain hb n where n: "start f = Post hb NegInf n" "ascending n"
    by (auto simp: feed_inv_def split: post.splits float64.splits)
  from ascending_imp_shape[OF n(2)] n(1) show
    "\<exists>hb ps tb. posts_from (start f) = (hb, NegInf) # ps @ [(tb, PosInf)] \<and>
       (\<forall>p\<in>set ps. is_finite (snd p)) \<and> sorted_wrt flt (map snd ps)"
    by auto
next
  assume "\<exists>hb ps tb. posts_from (start f) = (hb, NegInf) # ps @ [(tb, PosInf)] \<and>
       (\<forall>p\<in>set ps. is_finite (snd p)) \<and> sorted_wrt flt (map snd ps)"
  then obtain hb ps tb where s: "posts_from (start f) = (hb, NegInf) # ps @ [(tb, PosInf)]"
    "\<forall>p\<in>set ps. is_finite (snd p)" "sorted_wrt flt (map snd ps)" by blast
  from s(1) obtain n where n: "start f = Post hb NegInf n" "posts_from n = ps @ [(tb, PosInf)]"
    by (cases "start f") auto
  from shape_imp_ascending[OF n(2) s(2) s(3)] n(1) show "feed_inv f"
    by (simp add: feed_inv_def)
qed

lemma posts_of_shape:
  "posts_from (start f) = h # ps @ [s] \<Longrightarrow> posts f = ps"
  by (simp add: posts_def)

text \<open>Add on a feed of the right shape, at the level of the list of posts.\<close>

lemma Add_shape:
  assumes "posts_from (start f) = (hb, NegInf) # ps @ [(tb, PosInf)]"
  shows "\<exists>f'. Add f b t = Inr f' \<and>
           posts_from (start f') = (hb, NegInf) #
             (takeWhile (\<lambda>p. flt (snd p) t) ps @ (b, t) # dropWhile (\<lambda>p. flt (snd p) t) ps) @
             [(tb, PosInf)]"
proof -
  from assms(1) obtain n where n: "start f = Post hb NegInf n" "posts_from n = ps @ [(tb, PosInf)]"
    by (cases "start f") auto
  have stop: "\<not> flt (snd (tb, PosInf)) t" by (cases t) simp_all
  then have "\<exists>p\<in>set (posts_from n). \<not> flt (snd p) t" using n(2) by auto
  from add_walk_returns[OF this] obtain n' where n': "add_walk b t n = Inr n'" by blast
  from add_walk_posts[OF n'] n(2) stop
  have "posts_from n' = (takeWhile (\<lambda>p. flt (snd p) t) ps @ (b, t) #
           dropWhile (\<lambda>p. flt (snd p) t) ps) @ [(tb, PosInf)]"
    by (simp add: takeWhile_snoc_stop dropWhile_snoc_stop)
  with n n' show ?thesis by (simp add: Add_def)
qed

lemma Add_keeps_inv:
  assumes "feed_inv f" and "Fin r \<notin> snd ` set (posts f)"
  shows "\<exists>f'. Add f b (Fin r) = Inr f' \<and> feed_inv f' \<and>
           mset (posts f') = add_mset (b, Fin r) (mset (posts f)) \<and>
           hd (posts_from (start f')) = hd (posts_from (start f)) \<and>
           last (posts_from (start f')) = last (posts_from (start f))"
proof -
  from assms(1) obtain hb ps tb where s: "posts_from (start f) = (hb, NegInf) # ps @ [(tb, PosInf)]"
    "\<forall>p\<in>set ps. is_finite (snd p)" "sorted_wrt flt (map snd ps)"
    unfolding feed_inv_shape by blast
  have ps: "posts f = ps" using s(1) by (rule posts_of_shape)
  let ?ps' = "takeWhile (\<lambda>p. flt (snd p) (Fin r)) ps @ (b, Fin r) #
              dropWhile (\<lambda>p. flt (snd p) (Fin r)) ps"
  from Add_shape[OF s(1), where t = "Fin r" and b = b] obtain f' where f': "Add f b (Fin r) = Inr f'"
    "posts_from (start f') = (hb, NegInf) # ?ps' @ [(tb, PosInf)]" by auto
  have ps': "posts f' = ?ps'" using f'(2) by (rule posts_of_shape)
  have sorted: "sorted_wrt flt (map snd ?ps')"
    using insert_keeps_sorted[OF s(3) s(2)] assms(2) ps by simp
  have "set ?ps' = insert (b, Fin r) (set ps)"
    by (rule set_insert_at)
  with s(2) have fin: "\<forall>p\<in>set ?ps'. is_finite (snd p)" by auto
  from f'(2) fin sorted have "feed_inv f'" unfolding feed_inv_shape by blast
  moreover have "mset ?ps' = add_mset (b, Fin r) (mset ps)"
  proof -
    have "mset (takeWhile (\<lambda>p. flt (snd p) (Fin r)) ps @ dropWhile (\<lambda>p. flt (snd p) (Fin r)) ps) = mset ps"
      by simp
    then show ?thesis by (simp del: takeWhile_dropWhile_id)
  qed
  moreover have "hd (posts_from (start f')) = hd (posts_from (start f))" using f'(2) s(1) by simp
  moreover have "last (posts_from (start f')) = last (posts_from (start f))" using f'(2) s(1) by simp
  ultimately show ?thesis using f'(1) ps ps' by simp
qed

lemma add_all_inv:
  "feed_inv f \<Longrightarrow> distinct (map snd calls) \<Longrightarrow> \<forall>c\<in>set calls. is_finite (snd c) \<Longrightarrow>
   snd ` set calls \<inter> snd ` set (posts f) = {} \<Longrightarrow>
   \<exists>f'. add_all f calls = Inr f' \<and> feed_inv f' \<and>
        mset (posts f') = mset (posts f) + mset calls \<and>
        hd (posts_from (start f')) = hd (posts_from (start f)) \<and>
        last (posts_from (start f')) = last (posts_from (start f))"
proof (induction calls arbitrary: f)
  case Nil
  then show ?case by simp
next
  case (Cons c calls)
  obtain b t where c: "c = (b, t)" by (cases c)
  from Cons.prems(3) c obtain r where r: "t = Fin r" by (cases t) auto
  from Cons.prems(4) c r have "Fin r \<notin> snd ` set (posts f)" by auto
  from Add_keeps_inv[OF Cons.prems(1) this, of b] obtain f1 where f1:
    "Add f b (Fin r) = Inr f1" "feed_inv f1"
    "mset (posts f1) = add_mset (b, Fin r) (mset (posts f))"
    "hd (posts_from (start f1)) = hd (posts_from (start f))"
    "last (posts_from (start f1)) = last (posts_from (start f))" by blast
  from f1(3) have "set (posts f1) = insert (b, Fin r) (set (posts f))"
    by (metis set_mset_add_mset_insert set_mset_mset)
  with Cons.prems(2,4) c r have disj: "snd ` set calls \<inter> snd ` set (posts f1) = {}" by auto
  from Cons.prems have "distinct (map snd calls)" "\<forall>c\<in>set calls. is_finite (snd c)" by auto
  from Cons.IH[OF f1(2) this disj] obtain f' where
    "add_all f1 calls = Inr f'" "feed_inv f'"
    "mset (posts f') = mset (posts f1) + mset calls"
    "hd (posts_from (start f')) = hd (posts_from (start f1))"
    "last (posts_from (start f')) = last (posts_from (start f1))" by blast
  with f1 c r show ?case by simp
qed

lemma feed_inv_NewFeed: "feed_inv NewFeed"
  by (simp add: feed_inv_def NewFeed_def newPost_def)

lemma posts_NewFeed: "posts NewFeed = []"
  by (simp add: posts_def NewFeed_def newPost_def)

text \<open>
  Claim C5. Any sequence of \<open>Add(b, t)\<close> calls with pairwise distinct finite timestamps on
  a new feed returns without a panic. The list then is the \<open>-\<infinity>\<close> sentinel at the head
  (body \<open>null\<close>), the added posts in strictly increasing timestamp order, and the \<open>+\<infinity>\<close>
  sentinel (empty body) at the end; the posts between the sentinels are exactly the
  posts added.
\<close>

theorem C5_feed_order:
  assumes "distinct (map snd calls)" and "\<forall>c\<in>set calls. is_finite (snd c)"
  shows "\<exists>f. add_all NewFeed calls = Inr f \<and>
           posts_from (start f) = (''null'', NegInf) # posts f @ [('''', PosInf)] \<and>
           sorted_wrt flt (map snd (posts f)) \<and>
           (\<forall>p\<in>set (posts f). is_finite (snd p)) \<and>
           mset (posts f) = mset calls"
proof -
  from add_all_inv[OF feed_inv_NewFeed assms] obtain f where f:
    "add_all NewFeed calls = Inr f" "feed_inv f" "mset (posts f) = mset calls"
    "hd (posts_from (start f)) = hd (posts_from (start NewFeed))"
    "last (posts_from (start f)) = last (posts_from (start NewFeed))"
    by (auto simp: posts_NewFeed)
  from f(2) obtain hb ps tb where s: "posts_from (start f) = (hb, NegInf) # ps @ [(tb, PosInf)]"
    "\<forall>p\<in>set ps. is_finite (snd p)" "sorted_wrt flt (map snd ps)"
    unfolding feed_inv_shape by blast
  have ps: "posts f = ps" using s(1) by (rule posts_of_shape)
  from f(4) s(1) have "hb = ''null''" by (simp add: NewFeed_def newPost_def)
  moreover from f(5) s(1) have "tb = ''''" by (simp add: NewFeed_def newPost_def)
  ultimately show ?thesis using f(1,3) s ps by simp
qed


theorem C5_feed_order_witness:
  "distinct (map snd [(''a'', Fin 1), (''b'', Fin 3), (''c'', Fin 2)]) \<and>
   list_all (\<lambda>c. is_finite (snd c)) [(''a'', Fin 1), (''b'', Fin 3), (''c'', Fin 2)] \<and>
   add_all NewFeed [(''a'', Fin 1), (''b'', Fin 3), (''c'', Fin 2)] =
     Inr \<lparr>start = Post ''null'' NegInf (Post ''a'' (Fin 1) (Post ''c'' (Fin 2)
            (Post ''b'' (Fin 3) (Post '''' PosInf nil))))\<rparr> \<and>
   mset (posts \<lparr>start = Post ''null'' NegInf (Post ''a'' (Fin 1) (Post ''c'' (Fin 2)
            (Post ''b'' (Fin 3) (Post '''' PosInf nil))))\<rparr>) =
     mset [(''a'', Fin 1), (''b'', Fin 3), (''c'', Fin 2)]"
proof -
  have d: "distinct (map snd [(''a'', Fin 1), (''b'', Fin 3), (''c'', Fin 2)])" by simp
  have fi: "\<forall>c\<in>set [(''a'', Fin 1), (''b'', Fin 3), (''c'', Fin 2)]. is_finite (snd c)" by simp
  have ev: "add_all NewFeed [(''a'', Fin 1), (''b'', Fin 3), (''c'', Fin 2)] =
     Inr \<lparr>start = Post ''null'' NegInf (Post ''a'' (Fin 1) (Post ''c'' (Fin 2)
            (Post ''b'' (Fin 3) (Post '''' PosInf nil))))\<rparr>"
    by (simp add: NewFeed_def newPost_def Add_def)
  from C5_feed_order[OF d fi] ev have
    "mset (posts \<lparr>start = Post ''null'' NegInf (Post ''a'' (Fin 1) (Post ''c'' (Fin 2)
            (Post ''b'' (Fin 3) (Post [] PosInf nil))))\<rparr>) =
     mset [(''a'', Fin 1), (''b'', Fin 3), (''c'', Fin 2)]"
    by (elim exE conjE) (simp only: sum.inject)
  with ev d show ?thesis by simp
qed


subsection \<open>A second Add with a timestamp already in the feed\<close>

lemma flt_irrefl: "\<not> flt a a"
  by (cases a) auto

text \<open>
  Claim C6. On a feed that satisfies the invariant and holds a post with timestamp \<open>t\<close>,
  \<open>Add(b, t)\<close> is not a no-op: it returns with the new post linked immediately before the
  existing one, and the list is no longer strictly increasing.
\<close>

theorem C6_duplicate_add:
  assumes "feed_inv f" and "(b0, t) \<in> set (posts f)"
  shows "\<exists>f' xs ys. Add f b t = Inr f' \<and> posts f = xs @ (b0, t) # ys \<and>
           posts f' = xs @ (b, t) # (b0, t) # ys \<and>
           \<not> sorted_wrt flt (map snd (posts f')) \<and> \<not> feed_inv f'"
proof -
  from assms(1) obtain hb ps tb where s: "posts_from (start f) = (hb, NegInf) # ps @ [(tb, PosInf)]"
    "\<forall>p\<in>set ps. is_finite (snd p)" "sorted_wrt flt (map snd ps)"
    unfolding feed_inv_shape by blast
  have ps: "posts f = ps" using s(1) by (rule posts_of_shape)
  from assms(2) ps obtain xs ys where split: "ps = xs @ (b0, t) # ys"
    by (metis split_list)
  from s(3) split have below: "\<And>x. x \<in> set xs \<Longrightarrow> flt (snd x) t"
    by (auto simp: sorted_wrt_append)
  have stop: "\<not> flt (snd (b0, t)) t" by (simp add: flt_irrefl)
  have tw: "takeWhile (\<lambda>p. flt (snd p) t) ps = xs"
    using below stop by (simp add: split takeWhile_append2)
  have dw: "dropWhile (\<lambda>p. flt (snd p) t) ps = (b0, t) # ys"
    using below stop by (simp add: split dropWhile_append2)
  from Add_shape[OF s(1), where t = t and b = b] obtain f' where f': "Add f b t = Inr f'"
    "posts_from (start f') = (hb, NegInf) # (xs @ (b, t) # (b0, t) # ys) @ [(tb, PosInf)]"
    by (auto simp: tw dw)
  have ps': "posts f' = xs @ (b, t) # (b0, t) # ys" using f'(2) by (rule posts_of_shape)
  have unsorted: "\<not> sorted_wrt flt (map snd (posts f'))"
    by (simp add: ps' sorted_wrt_append flt_irrefl)
  have "\<not> feed_inv f'"
  proof
    assume "feed_inv f'"
    then obtain hb' ps' tb' where s': "posts_from (start f') = (hb', NegInf) # ps' @ [(tb', PosInf)]"
      "sorted_wrt flt (map snd ps')"
      unfolding feed_inv_shape by blast
    have "posts f' = ps'" using s'(1) by (rule posts_of_shape)
    with s'(2) unsorted show False by simp
  qed
  with f'(1) ps split ps' unsorted show ?thesis by blast
qed

theorem C6_duplicate_add_witness:
  "feed_inv \<lparr>start = Post ''null'' NegInf (Post ''a'' (Fin 1) (Post ''b'' (Fin 2) (Post '''' PosInf nil)))\<rparr> \<and>
   Add \<lparr>start = Post ''null'' NegInf (Post ''a'' (Fin 1) (Post ''b'' (Fin 2) (Post '''' PosInf nil)))\<rparr>
       ''c'' (Fin 2) =
     Inr \<lparr>start = Post ''null'' NegInf (Post ''a'' (Fin 1) (Post ''c'' (Fin 2) (Post ''b'' (Fin 2)
            (Post '''' PosInf nil))))\<rparr> \<and>
   \<not> feed_inv \<lparr>start = Post ''null'' NegInf (Post ''a'' (Fin 1) (Post ''c'' (Fin 2)
            (Post ''b'' (Fin 2) (Post '''' PosInf nil))))\<rparr>"
proof -
  let ?f = "\<lparr>start = Post ''null'' NegInf (Post ''a'' (Fin 1) (Post ''b'' (Fin 2) (Post '''' PosInf nil)))\<rparr>"
  let ?f' = "\<lparr>start = Post ''null'' NegInf (Post ''a'' (Fin 1) (Post ''c'' (Fin 2) (Post ''b'' (Fin 2)
            (Post '''' PosInf nil))))\<rparr>"
  have inv: "feed_inv ?f" by (simp add: feed_inv_def)
  have mem: "(''b'', Fin 2) \<in> set (posts ?f)" by (simp add: posts_def)
  have ev: "Add ?f ''c'' (Fin 2) = Inr ?f'" by (simp add: Add_def newPost_def)
  from C6_duplicate_add[OF inv mem, of "''c''"] obtain f' where
    f': "Add ?f ''c'' (Fin 2) = Inr f'" "\<not> feed_inv f'" by blast
  from f'(1) ev have "f' = ?f'" by (simp only: sum.inject)
  with f'(2) have "\<not> feed_inv ?f'" by blast
  with inv ev show ?thesis by blast
qed

subsection \<open>Remove and Contains on a feed that satisfies the invariant\<close>

lemma Contains_inv:
  assumes "feed_inv f"
  shows "Contains f (Fin r) = Inr (Fin r \<in> snd ` set (posts f))"
proof -
  from assms obtain hb n where n: "start f = Post hb NegInf n" "ascending n"
    by (auto simp: feed_inv_def split: post.splits float64.splits)
  from ascending_imp_shape[OF n(2)] obtain ps tb where
    ps: "posts_from n = ps @ [(tb, PosInf)]" by blast
  with n(1) have "posts_from (start f) = (hb, NegInf) # ps @ [(tb, PosInf)]" by simp
  then have "posts f = ps" by (rule posts_of_shape)
  with contains_walk_ascending[OF n(2), of r] n(1) ps show ?thesis
    by (simp add: Contains_def image_Un)
qed

lemma Remove_inv:
  assumes "feed_inv f"
  shows "\<exists>f'. Remove f (Fin r) = Inr (f', Fin r \<in> snd ` set (posts f)) \<and> feed_inv f' \<and>
           posts f' = filter (\<lambda>p. snd p \<noteq> Fin r) (posts f) \<and>
           (Fin r \<notin> snd ` set (posts f) \<longrightarrow> f' = f)"
proof -
  from assms obtain hb n where n: "start f = Post hb NegInf n" "ascending n"
    by (auto simp: feed_inv_def split: post.splits float64.splits)
  from ascending_imp_shape[OF n(2)] obtain ps tb where
    ps: "posts_from n = ps @ [(tb, PosInf)]" "\<forall>p\<in>set ps. is_finite (snd p)"
    "sorted_wrt flt (map snd ps)" by blast
  with n(1) have "posts_from (start f) = (hb, NegInf) # ps @ [(tb, PosInf)]" by simp
  then have pf: "posts f = ps" by (rule posts_of_shape)
  from remove_walk_ascending[OF n(2), of r] obtain n' where n':
    "remove_walk (Fin r) n = Inr (n', Fin r \<in> snd ` set (posts_from n))"
    "posts_from n' = filter (\<lambda>p. snd p \<noteq> Fin r) (posts_from n)" by blast
  let ?f' = "f\<lparr>start := Post hb NegInf n'\<rparr>"
  let ?ps' = "filter (\<lambda>p. snd p \<noteq> Fin r) ps"
  have mem: "(Fin r \<in> snd ` set (posts_from n)) = (Fin r \<in> snd ` set (posts f))"
    using ps(1) pf by (simp add: image_Un)
  have run: "Remove f (Fin r) = Inr (?f', Fin r \<in> snd ` set (posts f))"
    using n(1) n'(1) mem by (simp add: Remove_def)
  have shape': "posts_from (start ?f') = (hb, NegInf) # ?ps' @ [(tb, PosInf)]"
    using n'(2) ps(1) by simp
  have pf': "posts ?f' = ?ps'" using shape' by (rule posts_of_shape)
  have "sorted_wrt flt (map snd ?ps')"
    using ps(3) by (simp add: sorted_wrt_map sorted_wrt_filter)
  moreover have "\<forall>p\<in>set ?ps'. is_finite (snd p)" using ps(2) by simp
  ultimately have inv': "feed_inv ?f'" using shape' unfolding feed_inv_shape by blast
  have same: "Fin r \<notin> snd ` set (posts f) \<longrightarrow> ?f' = f"
  proof
    assume "Fin r \<notin> snd ` set (posts f)"
    with pf have "\<forall>p\<in>set ps. snd p \<noteq> Fin r" by force
    then have "?ps' = ps" by (simp only: filter_id_conv)
    with n'(2) ps(1) have "posts_from n' = posts_from n" by simp
    then have "n' = n" by (rule posts_from_inj)
    with n(1) show "?f' = f" by simp
  qed
  from run inv' pf' pf same show ?thesis by auto
qed

lemma standing_from_snoc:
  "standing_from s t (evs @ [e]) =
     (case e of Added b t' \<Rightarrow> standing_from s t evs \<or> t' = t
      | Removed t' r \<Rightarrow> standing_from s t evs \<and> \<not> (t' = t \<and> r))"
proof (induction evs arbitrary: s)
  case Nil
  then show ?case by (cases e) auto
next
  case (Cons a evs)
  then show ?case by (cases a; cases e) auto
qed

lemma standing_from_False: "standing_from False t evs = last_add_stands t (rev evs)"
proof (induction evs rule: rev_induct)
  case Nil
  then show ?case by simp
next
  case (snoc e evs)
  then show ?case by (cases e) (auto simp: standing_from_snoc)
qed

lemma run_calls_inv:
  "feed_inv f \<Longrightarrow> set present = snd ` set (posts f) \<Longrightarrow> no_duplicates present calls \<Longrightarrow>
   \<exists>f' evs. run_calls f calls = Inr (f', evs) \<and> feed_inv f' \<and>
     (\<forall>t. (t \<in> snd ` set (posts f')) = standing_from (t \<in> snd ` set (posts f)) t evs)"
proof (induction calls arbitrary: f present)
  case Nil
  then show ?case by simp
next
  case (Cons c calls)
  show ?case
  proof (cases c)
    case (AddCall b t)
    with Cons.prems(3) obtain r where r: "t = Fin r" by (cases t) auto
    from Cons.prems(2,3) AddCall r have fresh: "Fin r \<notin> snd ` set (posts f)" by simp
    from Add_keeps_inv[OF Cons.prems(1) fresh, of b] obtain f1 where f1:
      "Add f b (Fin r) = Inr f1" "feed_inv f1"
      "mset (posts f1) = add_mset (b, Fin r) (mset (posts f))" by blast
    from f1(3) have set1: "set (posts f1) = insert (b, Fin r) (set (posts f))"
      by (metis set_mset_add_mset_insert set_mset_mset)
    with Cons.prems(2) have pr: "set (Fin r # present) = snd ` set (posts f1)" by simp
    from Cons.prems(3) AddCall r have nd: "no_duplicates (Fin r # present) calls" by simp
    from Cons.IH[OF f1(2) pr nd] obtain f' evs where f': "run_calls f1 calls = Inr (f', evs)"
      "feed_inv f'"
      "\<forall>t. (t \<in> snd ` set (posts f')) = standing_from (t \<in> snd ` set (posts f1)) t evs"
      by blast
    have "\<forall>t'. (t' \<in> snd ` set (posts f')) =
             standing_from (t' \<in> snd ` set (posts f)) t' (Added b (Fin r) # evs)"
    proof
      fix t'
      have "(t' \<in> snd ` set (posts f1)) = (t' \<in> snd ` set (posts f) \<or> Fin r = t')"
        using set1 by auto
      with f'(3) show "(t' \<in> snd ` set (posts f')) =
             standing_from (t' \<in> snd ` set (posts f)) t' (Added b (Fin r) # evs)" by simp
    qed
    with f1(1) f'(1,2) AddCall r show ?thesis by simp
  next
    case (RemoveCall t)
    with Cons.prems(3) obtain r where r: "t = Fin r" by (cases t) auto
    from Remove_inv[OF Cons.prems(1), of r] obtain f1 where f1:
      "Remove f (Fin r) = Inr (f1, Fin r \<in> snd ` set (posts f))" "feed_inv f1"
      "posts f1 = filter (\<lambda>p. snd p \<noteq> Fin r) (posts f)" by blast
    from f1(3) have set1: "snd ` set (posts f1) = snd ` set (posts f) - {Fin r}" by auto
    with Cons.prems(2) have pr: "set (removeAll (Fin r) present) = snd ` set (posts f1)" by simp
    from Cons.prems(3) RemoveCall r have nd: "no_duplicates (removeAll (Fin r) present) calls"
      by simp
    from Cons.IH[OF f1(2) pr nd] obtain f' evs where f': "run_calls f1 calls = Inr (f', evs)"
      "feed_inv f'"
      "\<forall>t. (t \<in> snd ` set (posts f')) = standing_from (t \<in> snd ` set (posts f1)) t evs"
      by blast
    have "\<forall>t'. (t' \<in> snd ` set (posts f')) =
             standing_from (t' \<in> snd ` set (posts f)) t'
               (Removed (Fin r) (Fin r \<in> snd ` set (posts f)) # evs)"
    proof
      fix t'
      have "(t' \<in> snd ` set (posts f1)) =
            (t' \<in> snd ` set (posts f) \<and> \<not> (Fin r = t' \<and> Fin r \<in> snd ` set (posts f)))"
        using set1 by auto
      with f'(3) show "(t' \<in> snd ` set (posts f')) =
             standing_from (t' \<in> snd ` set (posts f)) t'
               (Removed (Fin r) (Fin r \<in> snd ` set (posts f)) # evs)" by simp
    qed
    with f1(1) f'(1,2) RemoveCall r show ?thesis by simp
  qed
qed


text \<open>
  Claim C7. Take any sequence of \<open>Add\<close> and \<open>Remove\<close> calls on a new feed whose timestamps
  are finite and in which no \<open>Add\<close> repeats a timestamp that is in the feed, and any finite
  \<open>t\<close>. The run returns; afterwards \<open>Contains(t)\<close> is true exactly when the last
  \<open>Add(\<cdot>, t)\<close> of the trace was not followed by a successful \<open>Remove(t)\<close>; \<open>Remove(t)\<close>
  returns whether a post with timestamp \<open>t\<close> is in the feed, unlinks the posts with that
  timestamp, and leaves the feed as it is when it returns false. Every prefix of such
  a sequence is such a sequence, so this covers each \<open>Remove\<close> of the sequence too.
\<close>

theorem C7_feed_membership:
  assumes "no_duplicates [] calls" and "is_finite t"
  shows "\<exists>f evs. run_calls NewFeed calls = Inr (f, evs) \<and>
           Contains f t = Inr (last_add_stands t (rev evs)) \<and>
           (\<exists>f'. Remove f t = Inr (f', t \<in> snd ` set (posts f)) \<and>
                 posts f' = filter (\<lambda>p. snd p \<noteq> t) (posts f) \<and>
                 (t \<notin> snd ` set (posts f) \<longrightarrow> f' = f))"
proof -
  from assms(2) obtain r where r: "t = Fin r" by (cases t) auto
  have "set [] = snd ` set (posts NewFeed)" by (simp add: posts_NewFeed)
  from run_calls_inv[OF feed_inv_NewFeed this assms(1)] obtain f evs where f:
    "run_calls NewFeed calls = Inr (f, evs)" "feed_inv f"
    "\<forall>t. (t \<in> snd ` set (posts f)) = standing_from (t \<in> snd ` set (posts NewFeed)) t evs"
    by blast
  from f(3) have "(t \<in> snd ` set (posts f)) = last_add_stands t (rev evs)"
    by (simp add: posts_NewFeed standing_from_False)
  with Contains_inv[OF f(2), of r] r
  have c: "Contains f t = Inr (last_add_stands t (rev evs))" by simp
  from Remove_inv[OF f(2), of r] r obtain f' where
    "Remove f t = Inr (f', t \<in> snd ` set (posts f))"
    "posts f' = filter (\<lambda>p. snd p \<noteq> t) (posts f)"
    "t \<notin> snd ` set (posts f) \<longrightarrow> f' = f" by blast
  with f(1) c show ?thesis by blast
qed

theorem C7_feed_membership_witness:
  "no_duplicates [] [AddCall ''a'' (Fin 5), AddCall ''b'' (Fin 7), RemoveCall (Fin 5)] \<and>
   is_finite (Fin 5) \<and>
   run_calls NewFeed [AddCall ''a'' (Fin 5), AddCall ''b'' (Fin 7), RemoveCall (Fin 5)] =
     Inr (\<lparr>start = Post ''null'' NegInf (Post ''b'' (Fin 7) (Post '''' PosInf nil))\<rparr>,
          [Added ''a'' (Fin 5), Added ''b'' (Fin 7), Removed (Fin 5) True]) \<and>
   Contains \<lparr>start = Post ''null'' NegInf (Post ''b'' (Fin 7) (Post '''' PosInf nil))\<rparr> (Fin 5) =
     Inr False"
proof -
  let ?calls = "[AddCall ''a'' (Fin 5), AddCall ''b'' (Fin 7), RemoveCall (Fin 5)]"
  let ?f = "\<lparr>start = Post ''null'' NegInf (Post ''b'' (Fin 7) (Post '''' PosInf nil))\<rparr>"
  let ?evs = "[Added ''a'' (Fin 5), Added ''b'' (Fin 7), Removed (Fin 5) True]"
  have nd: "no_duplicates [] ?calls" by simp
  have fi: "is_finite (Fin 5)" by simp
  have ev: "run_calls NewFeed ?calls = Inr (?f, ?evs)"
    by (simp add: NewFeed_def newPost_def Add_def Remove_def)
  from C7_feed_membership[OF nd fi] obtain f evs where
    f: "run_calls NewFeed ?calls = Inr (f, evs)"
       "Contains f (Fin 5) = Inr (last_add_stands (Fin 5) (rev evs))" by blast
  from f(1) ev have "f = ?f" "evs = ?evs" by simp_all
  with f(2) have "Contains ?f (Fin 5) = Inr False" by simp
  with nd fi ev show ?thesis by blast
qed

subsection \<open>ShowFeed\<close>

text \<open>
  Claim C8. On a feed that satisfies the invariant, \<open>ShowFeed\<close> returns without a panic
  one marshalled \<open>{Body, Timestamp}\<close> record per post strictly between the two sentinels
  and none for the sentinels, in the reverse of the stored order; the timestamps of the
  records are strictly decreasing. \<open>ShowFeed\<close> only reads the list: it yields no new feed.
\<close>

theorem C8_snapshot:
  assumes "feed_inv f"
  shows "ShowFeed f = Inr (map (\<lambda>p. marshal_postBodyTimestamp (fst p) (snd p)) (rev (posts f))) \<and>
         sorted_wrt (\<lambda>a b. flt b a) (map snd (rev (posts f))) \<and>
         (\<exists>hb tb. posts_from (start f) = (hb, NegInf) # posts f @ [(tb, PosInf)]) \<and>
         (\<forall>p\<in>set (posts f). \<exists>r. snd p = Fin r \<and>
            marshal_postBodyTimestamp (fst p) (snd p) =
              Json (JObject [(''Body'', JString (fst p)), (''Timestamp'', marshal_float64 r)]))"
proof -
  from assms obtain hb ps tb where s: "posts_from (start f) = (hb, NegInf) # ps @ [(tb, PosInf)]"
    "\<forall>p\<in>set ps. is_finite (snd p)" "sorted_wrt flt (map snd ps)"
    unfolding feed_inv_shape by blast
  have ps: "posts f = ps" using s(1) by (rule posts_of_shape)
  from s(1) obtain n where n: "start f = Post hb NegInf n" "posts_from n = ps @ [(tb, PosInf)]"
    by (cases "start f") auto
  from show_walk_shape[OF n(2) s(2)] n(1)
  have "ShowFeed f = Inr (map (\<lambda>p. marshal_postBodyTimestamp (fst p) (snd p)) (rev ps))"
    by (simp add: ShowFeed_def reverseFeed_rev rev_map)
  moreover have "sorted_wrt (\<lambda>a b. flt b a) (map snd (rev ps))"
    using s(3) by (simp add: rev_map[symmetric] sorted_wrt_rev)
  moreover have "\<forall>p\<in>set ps. \<exists>r. snd p = Fin r \<and>
            marshal_postBodyTimestamp (fst p) (snd p) =
              Json (JObject [(''Body'', JString (fst p)), (''Timestamp'', marshal_float64 r)])"
  proof
    fix p assume "p \<in> set ps"
    with s(2) obtain r where "snd p = Fin r" by (cases "snd p") auto
    then show "\<exists>r. snd p = Fin r \<and>
            marshal_postBodyTimestamp (fst p) (snd p) =
              Json (JObject [(''Body'', JString (fst p)), (''Timestamp'', marshal_float64 r)])"
      by simp
  qed
  ultimately show ?thesis using ps s(1) by simp
qed

theorem C8_snapshot_witness:
  "feed_inv \<lparr>start = Post ''null'' NegInf (Post ''a'' (Fin 1) (Post ''c'' (Fin 2)
            (Post ''b'' (Fin 3) (Post '''' PosInf nil))))\<rparr> \<and>
   ShowFeed \<lparr>start = Post ''null'' NegInf (Post ''a'' (Fin 1) (Post ''c'' (Fin 2)
            (Post ''b'' (Fin 3) (Post '''' PosInf nil))))\<rparr> =
     Inr [Json (JObject [(''Body'', JString ''b''), (''Timestamp'', JInt 3)]),
          Json (JObject [(''Body'', JString ''c''), (''Timestamp'', JInt 2)]),
          Json (JObject [(''Body'', JString ''a''), (''Timestamp'', JInt 1)])]"
proof -
  let ?f = "\<lparr>start = Post ''null'' NegInf (Post ''a'' (Fin 1) (Post ''c'' (Fin 2)
            (Post ''b'' (Fin 3) (Post '''' PosInf nil))))\<rparr>"
  have inv: "feed_inv ?f" by (simp add: feed_inv_def)
  have p: "posts ?f = [(''a'', Fin 1), (''c'', Fin 2), (''b'', Fin 3)]" by (simp add: posts_def)
  from C8_snapshot[OF inv]
  have "ShowFeed ?f = Inr (map (\<lambda>p. marshal_postBodyTimestamp (fst p) (snd p)) (rev (posts ?f)))"
    by blast
  then have "ShowFeed ?f =
     Inr [Json (JObject [(''Body'', JString ''b''), (''Timestamp'', JInt 3)]),
          Json (JObject [(''Body'', JString ''c''), (''Timestamp'', JInt 2)]),
          Json (JObject [(''Body'', JString ''a''), (''Timestamp'', JInt 1)])]"
    by (simp add: p marshal_float64_def)
  with inv show ?thesis by blast
qed

subsection \<open>The +infinity sentinel seen through the interface\<close>

text \<open>
  Claim C10. Take any feed whose list is the \<open>-\<infinity>\<close> head, finitely many posts with finite
  timestamps (none for the empty feed) and the \<open>+\<infinity>\<close> sentinel. \<open>Contains(+\<infinity>)\<close> returns
  true, and \<open>Remove(+\<infinity>)\<close> returns true and unlinks the sentinel: the list then ends in
  nil after the last post. On that feed a walk for \<open>+\<infinity>\<close>, or for any timestamp above
  every remaining post, reads through the nil pointer, in \<open>Contains\<close> and in \<open>Add\<close>.
\<close>

theorem C10_sentinel_reachable:
  assumes "posts_from (start f) = (hb, NegInf) # ps @ [(tb, PosInf)]"
    and "\<forall>p\<in>set ps. is_finite (snd p)"
  shows "Contains f PosInf = Inr True \<and>
         (\<exists>f'. Remove f PosInf = Inr (f', True) \<and>
               posts_from (start f') = (hb, NegInf) # ps \<and>
               Contains f' PosInf = Inl NilPointerDereference \<and>
               Add f' b PosInf = Inl NilPointerDereference \<and>
               (\<forall>t. (\<forall>p\<in>set ps. flt (snd p) t) \<longrightarrow>
                    Contains f' t = Inl NilPointerDereference \<and>
                    Add f' b t = Inl NilPointerDereference))"
proof -
  from assms(1) obtain n where n: "start f = Post hb NegInf n" "posts_from n = ps @ [(tb, PosInf)]"
    by (cases "start f") auto
  from contains_walk_sentinel[OF n(2) assms(2)] n(1)
  have c: "Contains f PosInf = Inr True" by (simp add: Contains_def)
  from remove_walk_sentinel[OF n(2) assms(2)] obtain n' where n':
    "remove_walk PosInf n = Inr (n', True)" "posts_from n' = ps" by blast
  let ?f' = "f\<lparr>start := Post hb NegInf n'\<rparr>"
  have r: "Remove f PosInf = Inr (?f', True)" using n(1) n'(1) by (simp add: Remove_def)
  have shape: "posts_from (start ?f') = (hb, NegInf) # ps" using n'(2) by simp
  have gen: "\<forall>t. (\<forall>p\<in>set ps. flt (snd p) t) \<longrightarrow>
                    Contains ?f' t = Inl NilPointerDereference \<and>
                    Add ?f' b t = Inl NilPointerDereference"
  proof (intro allI impI)
    fix t assume "\<forall>p\<in>set ps. flt (snd p) t"
    then have a: "\<forall>p\<in>set (posts_from n'). flt (snd p) t" using n'(2) by simp
    from contains_walk_panics[OF a] add_walk_panics[OF a, of b]
    show "Contains ?f' t = Inl NilPointerDereference \<and> Add ?f' b t = Inl NilPointerDereference"
      by (simp add: Contains_def Add_def)
  qed
  have "\<forall>p\<in>set ps. flt (snd p) PosInf"
  proof
    fix p assume "p \<in> set ps"
    with assms(2) obtain x where "snd p = Fin x" by (cases "snd p") auto
    then show "flt (snd p) PosInf" by simp
  qed
  with gen have "Contains ?f' PosInf = Inl NilPointerDereference"
    "Add ?f' b PosInf = Inl NilPointerDereference" by blast+
  with c r shape gen show ?thesis by blast
qed

theorem C10_sentinel_reachable_witness:
  "posts_from (start NewFeed) = (''null'', NegInf) # [] @ [('''', PosInf)] \<and>
   Contains NewFeed PosInf = Inr True \<and>
   Remove NewFeed PosInf = Inr (\<lparr>start = Post ''null'' NegInf nil\<rparr>, True) \<and>
   Contains \<lparr>start = Post ''null'' NegInf nil\<rparr> (Fin 1) = Inl NilPointerDereference \<and>
   Add \<lparr>start = Post ''null'' NegInf nil\<rparr> ''x'' (Fin 1) = Inl NilPointerDereference"
proof -
  have s: "posts_from (start NewFeed) = (''null'', NegInf) # [] @ [('''', PosInf)]"
    by (simp add: NewFeed_def newPost_def)
  have fi: "\<forall>p\<in>set ([] :: (string \<times> float64) list). is_finite (snd p)" by simp
  have r: "Remove NewFeed PosInf = Inr (\<lparr>start = Post ''null'' NegInf nil\<rparr>, True)"
    by (simp add: NewFeed_def newPost_def Remove_def)
  from C10_sentinel_reachable[OF s fi, of "''x''"] obtain f' where f':
    "Contains NewFeed PosInf = Inr True" "Remove NewFeed PosInf = Inr (f', True)"
    "\<forall>t. (\<forall>p\<in>set ([] :: (string \<times> float64) list). flt (snd p) t) \<longrightarrow>
          Contains f' t = Inl NilPointerDereference \<and> Add f' ''x'' t = Inl NilPointerDereference"
    by blast
  from f'(2) r have "f' = \<lparr>start = Post ''null'' NegInf nil\<rparr>" by simp
  with f'(3) have "Contains \<lparr>start = Post ''null'' NegInf nil\<rparr> (Fin 1) = Inl NilPointerDereference"
    "Add \<lparr>start = Post ''null'' NegInf nil\<rparr> ''x'' (Fin 1) = Inl NilPointerDereference"
    by simp_all
  with s f'(1) r show ?thesis by blast
qed


section \<open>Properties of the queue\<close>

lemma chain_update_other:
  "a' \<notin> set (a # as) \<Longrightarrow> chain (ts(a' := v)) a as = chain ts a as"
  by (induction as arbitrary: a) auto

lemma chain_end: "chain ts a as \<Longrightarrow> nxt (ts (last (a # as))) = None"
  by (induction as arbitrary: a) auto

lemma chain_link:
  "chain ts a as \<Longrightarrow> distinct (a # as) \<Longrightarrow> f \<notin> set (a # as) \<Longrightarrow> nxt (ts f) = None \<Longrightarrow>
   l = last (a # as) \<Longrightarrow> chain (ts(l := (ts l)\<lparr>nxt := Some f\<rparr>)) a (as @ [f])"
proof (induction as arbitrary: a)
  case Nil
  then show ?case by simp
next
  case (Cons b bs)
  from Cons.prems have "chain ts b bs" "distinct (b # bs)" "f \<notin> set (b # bs)" "l = last (b # bs)"
    by auto
  from Cons.IH[OF this(1,2,3) Cons.prems(4) this(4)]
  have step: "chain (ts(l := (ts l)\<lparr>nxt := Some f\<rparr>)) b (bs @ [f])" .
  have "last (b # bs) \<in> set (b # bs)" by (rule last_in_set) simp
  with Cons.prems(2) \<open>l = last (b # bs)\<close> have "l \<noteq> a" by auto
  with Cons.prems(1) have "nxt ((ts(l := (ts l)\<lparr>nxt := Some f\<rparr>)) a) = Some b" by simp
  then show ?case unfolding append_Cons chain.simps(2) using step by (rule conjI)
qed

lemma holds_NewQueue: "holds NewQueue []"
  by (simp add: holds_def NewQueue_def zero_task_def)

lemma Enqueue_holds:
  assumes "holds q xs"
  shows "\<exists>q'. Enqueue (Suc k) q b = Some (Inr q') \<and> holds q' (xs @ [b])"
proof -
  from assms obtain h as where q: "head q = Some h" "chain (tasks q) h as" "distinct (h # as)"
    "list_all (\<lambda>a. a < fresh q) (h # as)" "tail q = Some (last (h # as))"
    "map (\<lambda>a. byteTask (tasks q a)) as = xs"
    unfolding holds_def by (elim exE conjE) (rule that)
  define f where "f = fresh q"
  define t where "t = last (h # as)"
  define ts1 where "ts1 = (tasks q)(f := \<lparr>byteTask = b, nxt = None\<rparr>)"
  define ts2 where "ts2 = ts1(t := (ts1 t)\<lparr>nxt := Some f\<rparr>)"
  from q(4) have below: "\<forall>a\<in>set (h # as). a < f" by (simp only: list_all_iff f_def)
  then have fnew: "f \<notin> set (h # as)" by blast
  have tin: "t \<in> set (h # as)" unfolding t_def by (rule last_in_set) simp
  with fnew have tf: "t \<noteq> f" by metis
  have ch1: "chain ts1 h as"
    using q(2) unfolding ts1_def by (simp only: chain_update_other[OF fnew])
  have end1: "nxt (ts1 t) = None" using chain_end[OF ch1] by (simp only: t_def)
  have f1: "nxt (ts1 f) = None" by (simp add: ts1_def)
  from q(5) have tq: "tail q = Some t" by (simp only: t_def)
  have loop: "Enqueue_loop (Suc k) (Some f) (q\<lparr>tasks := ts1, fresh := Suc f\<rparr>) =
                Some (Inr (Some t, q\<lparr>tasks := ts2, fresh := Suc f\<rparr>))"
    using tq end1 by (simp add: Enqueue_pass_def Let_def ts2_def)
  define q3 where "q3 = q\<lparr>tasks := ts2, fresh := Suc f, tail := Some f\<rparr>"
  have run: "Enqueue (Suc k) q b = Some (Inr q3)"
    unfolding Enqueue_def newTask_def f_def[symmetric] ts1_def[symmetric]
    using loop tq by (simp add: q3_def)
  have ch2: "chain ts2 h (as @ [f])"
    unfolding ts2_def by (rule chain_link[OF ch1 q(3) fnew f1 t_def])
  have d2: "distinct (h # as @ [f])" using q(3) fnew by auto
  have b2: "list_all (\<lambda>a. a < fresh q3) (h # as @ [f])"
    using below by (auto simp: list_all_iff q3_def)
  have l2: "tail q3 = Some (last (h # as @ [f]))" by (simp add: q3_def)
  have old: "\<forall>a\<in>set as. byteTask (ts2 a) = byteTask (tasks q a)"
  proof
    fix a assume "a \<in> set as"
    with fnew have "a \<noteq> f" by auto
    then show "byteTask (ts2 a) = byteTask (tasks q a)" by (simp add: ts2_def ts1_def)
  qed
  have new: "byteTask (ts2 f) = b" using tf by (simp add: ts2_def ts1_def)
  have "map (\<lambda>a. byteTask (ts2 a)) as = map (\<lambda>a. byteTask (tasks q a)) as"
    using old by (simp only: map_eq_conv)
  with q(6) new have m2: "map (\<lambda>a. byteTask (tasks q3 a)) (as @ [f]) = xs @ [b]"
    by (simp add: q3_def)
  have h3: "head q3 = Some h" using q(1) by (simp add: q3_def)
  have t3: "chain (tasks q3) h (as @ [f])" using ch2 by (simp add: q3_def)
  have "holds q3 (xs @ [b])"
    unfolding holds_def
    using h3 t3 d2 b2 l2 m2
    by (intro exI[of _ h] exI[of _ "as @ [f]"] conjI)
  with run show ?thesis by blast
qed

lemma Dequeue_holds_empty:
  assumes "holds q []"
  shows "Dequeue (Suc k) q = Some (Inr (empty_marker, q))"
proof -
  from assms obtain h where "head q = Some h" "nxt (tasks q h) = None"
    unfolding holds_def by auto
  then show ?thesis by (simp add: Dequeue_pass_def Let_def)
qed

lemma Dequeue_holds_nonempty:
  assumes "holds q (x # xs)"
  shows "\<exists>q'. Dequeue (Suc k) q = Some (Inr (x, q')) \<and> holds q' xs"
proof -
  from assms obtain h as where q: "head q = Some h" "chain (tasks q) h as" "distinct (h # as)"
    "list_all (\<lambda>a. a < fresh q) (h # as)" "tail q = Some (last (h # as))"
    "map (\<lambda>a. byteTask (tasks q a)) as = x # xs"
    unfolding holds_def by (elim exE conjE) (rule that)
  from q(6) obtain r rs where as: "as = r # rs" by (cases as) auto
  from q(2) as have nr: "nxt (tasks q h) = Some r" and ch: "chain (tasks q) r rs" by auto
  have "last (r # rs) \<in> set (r # rs)" by (rule last_in_set) simp
  with q(3) as have "last (h # as) \<noteq> h" by auto
  with q(5) have tl: "tail q \<noteq> Some h" by simp
  from q(6) as have x: "byteTask (tasks q r) = x" by simp
  let ?q' = "q\<lparr>head := Some r\<rparr>"
  have run: "Dequeue (Suc k) q = Some (Inr (x, ?q'))"
    using q(1) nr tl x by (simp add: Dequeue_pass_def Let_def)
  have "holds ?q' xs"
    unfolding holds_def
    using ch q(3,4,5,6) as
    by (intro exI[of _ r] exI[of _ rs]) simp
  with run show ?thesis by blast
qed

lemma run_queue_refines:
  "holds q xs \<Longrightarrow>
   \<exists>q'. run_queue (Suc k) q cs = Some (Inr (map returned (fst (fifo_run xs cs)), q')) \<and>
        holds q' (snd (fifo_run xs cs))"
proof (induction xs cs arbitrary: q rule: fifo_run.induct)
  case (1 xs)
  then show ?case by simp
next
  case (2 xs b cs)
  from Enqueue_holds[OF 2(2), of k b] obtain q1 where
    q1: "Enqueue (Suc k) q b = Some (Inr q1)" "holds q1 (xs @ [b])" by blast
  from 2(1)[OF q1(2)] q1(1) show ?case by simp
next
  case (3 cs)
  from Dequeue_holds_empty[OF 3(2), of k]
  have d: "Dequeue (Suc k) q = Some (Inr (empty_marker, q))" .
  from 3(1)[OF 3(2)] obtain q' where
    "run_queue (Suc k) q cs = Some (Inr (map returned (fst (fifo_run [] cs)), q'))"
    "holds q' (snd (fifo_run [] cs))" by blast
  with d show ?case by (simp add: case_prod_beta)
next
  case (4 x xs cs)
  from Dequeue_holds_nonempty[OF 4(2), of k] obtain q1 where
    q1: "Dequeue (Suc k) q = Some (Inr (x, q1))" "holds q1 xs" by blast
  from 4(1)[OF q1(2)] obtain q' where
    "run_queue (Suc k) q1 cs = Some (Inr (map returned (fst (fifo_run xs cs)), q'))"
    "holds q' (snd (fifo_run xs cs))" by blast
  with q1(1) show ?case by (simp add: case_prod_beta)
qed

lemma fifo_run_order:
  "xs @ enqueued cs = served (fst (fifo_run xs cs)) @ snd (fifo_run xs cs)"
  by (induction xs cs rule: fifo_run.induct) (auto simp: case_prod_beta)

lemma served_filter:
  "empty_marker \<notin> set (served outs) \<Longrightarrow>
   filter (\<lambda>b. b \<noteq> empty_marker) (map returned outs) = served outs"
  by (induction outs rule: served.induct) auto


text \<open>
  Claim C9. Run by one thread from a new queue, any sequence of \<open>Enqueue\<close> and \<open>Dequeue\<close>
  calls returns (each loop leaves in its first pass, so any positive bound on the passes
  is enough) and agrees with the functional FIFO list: each \<open>Dequeue\<close> returns the oldest
  payload enqueued and not yet dequeued, or the marshalled sentinel record when none
  remains. Hence the payloads dequeued are a prefix of the payloads enqueued, in the same
  order, followed by what is left in the queue; once the queue is drained the two
  multisets agree; and when no enqueued payload is the sentinel record itself, the
  payloads dequeued are the returned byte slices other than the sentinel record.
\<close>

theorem C9_queue_refines_fifo:
  "\<exists>q' outs left. fifo_run [] cs = (outs, left) \<and>
     run_queue (Suc k) NewQueue cs = Some (Inr (map returned outs, q')) \<and>
     holds q' left \<and>
     enqueued cs = served outs @ left \<and>
     prefix (served outs) (enqueued cs) \<and>
     (left = [] \<longrightarrow> mset (served outs) = mset (enqueued cs)) \<and>
     (empty_marker \<notin> set (enqueued cs) \<longrightarrow>
        filter (\<lambda>b. b \<noteq> empty_marker) (map returned outs) = served outs)"
proof -
  obtain outs left where f: "fifo_run [] cs = (outs, left)" by (cases "fifo_run [] cs")
  from run_queue_refines[OF holds_NewQueue, of k cs] f obtain q' where
    q': "run_queue (Suc k) NewQueue cs = Some (Inr (map returned outs, q'))" "holds q' left"
    by auto
  from fifo_run_order[of "[]" cs] f have order: "enqueued cs = served outs @ left" by simp
  then have pre: "prefix (served outs) (enqueued cs)" by simp
  have drained: "left = [] \<longrightarrow> mset (served outs) = mset (enqueued cs)" using order by simp
  have marker: "empty_marker \<notin> set (enqueued cs) \<longrightarrow>
        filter (\<lambda>b. b \<noteq> empty_marker) (map returned outs) = served outs"
  proof
    assume "empty_marker \<notin> set (enqueued cs)"
    with order have "empty_marker \<notin> set (served outs)" by simp
    then show "filter (\<lambda>b. b \<noteq> empty_marker) (map returned outs) = served outs"
      by (rule served_filter)
  qed
  from f q' order pre drained marker show ?thesis by blast
qed

theorem C9_queue_refines_fifo_witness:
  "(\<exists>q'. run_queue (Suc 0) NewQueue
           [Enq (Json (JString ''a'')), Deq, Enq (Json (JString ''b'')),
            Enq (Json (JString ''c'')), Deq, Deq, Deq] =
         Some (Inr ([Json (JString ''a''), Json (JString ''b''), Json (JString ''c''),
                     empty_marker], q'))) \<and>
   mset [Json (JString ''a''), Json (JString ''b''), Json (JString ''c'')] =
   mset (enqueued [Enq (Json (JString ''a'')), Deq, Enq (Json (JString ''b'')),
                   Enq (Json (JString ''c'')), Deq, Deq, Deq])"
proof -
  let ?cs = "[Enq (Json (JString ''a'')), Deq, Enq (Json (JString ''b'')),
              Enq (Json (JString ''c'')), Deq, Deq, Deq]"
  have f: "fifo_run [] ?cs =
     ([Some (Json (JString ''a'')), Some (Json (JString ''b'')), Some (Json (JString ''c'')), None],
      [])" by simp
  from C9_queue_refines_fifo[of ?cs 0] obtain q' outs left where r:
    "fifo_run [] ?cs = (outs, left)"
    "run_queue (Suc 0) NewQueue ?cs = Some (Inr (map returned outs, q'))"
    "left = [] \<longrightarrow> mset (served outs) = mset (enqueued ?cs)" by blast
  from r(1) f have o: "outs = [Some (Json (JString ''a'')), Some (Json (JString ''b'')),
      Some (Json (JString ''c'')), None]" and l: "left = []" by simp_all
  from r(2) o have "run_queue (Suc 0) NewQueue ?cs =
         Some (Inr ([Json (JString ''a''), Json (JString ''b''), Json (JString ''c''),
                     empty_marker], q'))" by simp
  moreover from r(3) l o have
    "mset [Json (JString ''a''), Json (JString ''b''), Json (JString ''c'')] = mset (enqueued ?cs)"
    by simp
  ultimately show ?thesis by blast
qed


section \<open>The reader cap of the read-write lock\<close>

lemma lock_run_append:
  "lock_run (es @ es') s = (case lock_run es s of None \<Rightarrow> None | Some s' \<Rightarrow> lock_run es' s')"
  by (induction es arbitrary: s) (auto split: option.splits)

text \<open>The first \<open>n\<close> threads call \<open>RLock\<close> one after the other; up to 65 of them get in.\<close>

lemma readers_enter:
  "n \<le> 65 \<Longrightarrow>
   lock_run (map (\<lambda>t. (t, RLock)) [0..<n]) lock_init =
     Some \<lparr>rw = \<lparr>cond_L = False, readCount = int n\<rparr>,
           place_of = (\<lambda>t. if t < n then Reading else Outside)\<rparr>"
proof (induction n)
  case 0
  then show ?case by (simp add: lock_init_def NewRWMutex_def)
next
  case (Suc n)
  then have IH: "lock_run (map (\<lambda>t. (t, RLock)) [0..<n]) lock_init =
     Some \<lparr>rw = \<lparr>cond_L = False, readCount = int n\<rparr>,
           place_of = (\<lambda>t. if t < n then Reading else Outside)\<rparr>" by simp
  from Suc.prems have n: "\<not> int n > 64" by simp
  have "(\<lambda>t. if t < n then Reading else Outside)(n := Reading) =
        (\<lambda>t. if t < Suc n then Reading else Outside)" by (auto simp: fun_eq_iff)
  with n show ?case by (simp add: lock_run_append IH)
qed

text \<open>In every reachable state the readers are counted by \<open>readCount\<close>, which is at most 65.\<close>

lemma counted_step:
  assumes "counted s" and "lock_step e s = Some s'"
  shows "counted s'"
proof -
  obtain t m where e: "e = (t, m)" by (cases e)
  from assms(1) have fin: "finite (readers s)" and cnt: "readCount (rw s) = int (card (readers s))"
    and le: "readCount (rw s) \<le> 65" by (auto simp: counted_def)
  show ?thesis
  proof (cases m)
    case RLock
    with assms(2) e have pl: "place_of s t = Outside \<or> place_of s t = RLock_waiting"
      by (auto split: if_splits)
    then have notin: "t \<notin> readers s" by (auto simp: readers_def)
    show ?thesis
    proof (cases "readCount (rw s) > 64")
      case True
      with assms(2) e RLock pl have s': "s' = s\<lparr>place_of := (place_of s)(t := RLock_waiting)\<rparr>"
        by (auto split: if_splits)
      then have "readers s' = readers s" using notin by (auto simp: readers_def)
      with s' fin cnt le show ?thesis by (simp add: counted_def)
    next
      case False
      with assms(2) e RLock pl have s': "s' = s\<lparr>rw := (rw s)\<lparr>readCount := readCount (rw s) + 1\<rparr>,
                         place_of := (place_of s)(t := Reading)\<rparr>"
        by (auto split: if_splits)
      then have "readers s' = insert t (readers s)" by (auto simp: readers_def)
      with s' fin cnt False notin show ?thesis by (simp add: counted_def)
    qed
  next
    case RUnlock
    with assms(2) e have pl: "place_of s t = Reading"
      and s': "s' = s\<lparr>rw := (rw s)\<lparr>readCount := readCount (rw s) - 1\<rparr>,
                   place_of := (place_of s)(t := Outside)\<rparr>"
      by (auto split: if_splits)
    from pl have tin: "t \<in> readers s" by (simp add: readers_def)
    from s' have r': "readers s' = readers s - {t}" by (auto simp: readers_def)
    from tin fin have "card (readers s) > 0" by (auto simp: card_gt_0_iff)
    with r' s' fin cnt le tin show ?thesis by (simp add: counted_def)
  next
    case Lock
    with assms(2) e have pl: "place_of s t = Outside \<or> place_of s t = Lock_waiting"
      by (auto split: if_splits)
    then have notin: "t \<notin> readers s" by (auto simp: readers_def)
    from assms(2) e Lock have "readers s' = readers s \<and> readCount (rw s') = readCount (rw s)"
      using notin by (auto simp: readers_def split: if_splits)
    with fin cnt le show ?thesis by (simp add: counted_def)
  next
    case Unlock
    with assms(2) e have pl: "place_of s t = Writing"
      and s': "s' = s\<lparr>rw := (rw s)\<lparr>cond_L := False\<rparr>,
                   place_of := (place_of s)(t := Outside)\<rparr>"
      by (auto split: if_splits)
    from pl have notin: "t \<notin> readers s" by (auto simp: readers_def)
    from s' have "readers s' = readers s" using notin by (auto simp: readers_def)
    with s' fin cnt le show ?thesis by (simp add: counted_def)
  qed
qed

lemma counted_run: "counted s \<Longrightarrow> lock_run es s = Some s' \<Longrightarrow> counted s'"
proof (induction es arbitrary: s)
  case Nil
  then show ?case by simp
next
  case (Cons e es)
  then show ?case by (auto split: option.splits dest: counted_step)
qed

lemma readers_at_most_65:
  "lock_run es lock_init = Some s \<Longrightarrow> finite (readers s) \<and> card (readers s) \<le> 65"
proof -
  assume r: "lock_run es lock_init = Some s"
  have "counted lock_init" by (simp add: counted_def readers_def lock_init_def NewRWMutex_def)
  from counted_run[OF this r] show ?thesis by (auto simp: counted_def)
qed

text \<open>
  Claim C1. The claim bounds the threads between a completed \<open>RLock\<close> and the start of
  their \<open>RUnlock\<close> by 64. The loop of \<open>RLock\<close> waits while \<open>readCount > 64\<close>; at
  \<open>readCount = 64\<close> the test is false, the 65th reader does not park and increments the
  count: after 65 threads have called \<open>RLock\<close> in turn, with no writer and no \<open>RUnlock\<close>,
  all 65 are reading. The 66th is the first to park.
\<close>

theorem C1_sixty_five_readers:
  "\<exists>s. lock_run (map (\<lambda>t. (t, RLock)) [0..<65]) lock_init = Some s \<and>
       readCount (rw s) = 65 \<and> \<not> cond_L (rw s) \<and>
       readers s = {0..<65} \<and> card (readers s) = 65 \<and>
       lock_step (65, RLock) s = Some (s\<lparr>place_of := (place_of s)(65 := RLock_waiting)\<rparr>)"
proof -
  let ?s = "\<lparr>rw = \<lparr>cond_L = False, readCount = int 65\<rparr>,
           place_of = (\<lambda>t. if t < 65 then Reading else Outside)\<rparr>"
  have run: "lock_run (map (\<lambda>t. (t, RLock)) [0..<65]) lock_init = Some ?s"
    by (rule readers_enter) simp
  have r: "readers ?s = {0..<65}" by (auto simp: readers_def)
  have step: "lock_step (65, RLock) ?s = Some (?s\<lparr>place_of := (place_of ?s)(65 := RLock_waiting)\<rparr>)"
    by simp
  have c: "card (readers ?s) = 65" unfolding r by simp
  have "readCount (rw ?s) = 65 \<and> \<not> cond_L (rw ?s)" by simp
  with run r c step show ?thesis by blast
qed


section \<open>Properties of the rounding to float64\<close>

lemma bitlen_numeral_simps:
  "bitlen 1 = 1"
  "bitlen (numeral (Num.Bit0 n)) = bitlen (numeral n) + 1"
  "bitlen (numeral (Num.Bit1 n)) = bitlen (numeral n) + 1"
  by (subst compute_bitlen, simp)+

lemma powr2_int: "0 \<le> k \<Longrightarrow> (2::real) powr (of_int k) = 2 ^ nat k"
  by (simp add: powr_real_of_int)

lemma powr2_neg_int: "0 \<le> k \<Longrightarrow> (2::real) powr (of_int (- k)) = 1 / 2 ^ nat k"
  by (simp add: powr_minus powr_real_of_int inverse_eq_divide)

text \<open>\<open>binade\<close> is the integer part of the binary logarithm.\<close>

lemma binade_ge1:
  assumes "1 \<le> a"
  shows "binade a = \<lfloor>log 2 a\<rfloor>"
proof -
  define m where "m = \<lfloor>a\<rfloor>"
  define k where "k = bitlen m - 1"
  have m: "0 < m" using assms by (simp add: m_def)
  have k0: "0 \<le> k" using m by (simp add: k_def bitlen_alt_def)
  from bitlen_bounds[OF m] have b: "2 ^ nat k \<le> m" "m < 2 ^ nat (k + 1)"
    by (simp_all add: k_def)
  have "real_of_int m \<le> a" by (simp add: m_def)
  moreover from b(1) have "(2::real) ^ nat k \<le> real_of_int m"
    by (metis of_int_le_iff of_int_numeral of_int_power)
  ultimately have lo: "(2::real) ^ nat k \<le> a" by linarith
  from b(2) have "m + 1 \<le> 2 ^ nat (k + 1)" by simp
  then have "real_of_int (m + 1) \<le> 2 ^ nat (k + 1)"
    by (metis of_int_le_iff of_int_numeral of_int_power)
  moreover have "a < real_of_int (m + 1)" by (simp add: m_def)
  ultimately have hi: "a < (2::real) ^ nat (k + 1)" by linarith
  have "\<lfloor>log 2 a\<rfloor> = k"
    using assms lo hi k0 powr2_int[of k] powr2_int[of "k + 1"]
    by (subst floor_log_eq_powr_iff) (simp_all add: add.commute)
  then show ?thesis using assms by (simp add: binade_def k_def m_def)
qed

lemma binade_lt1:
  assumes "0 < a" "a < 1"
  shows "binade a = \<lfloor>log 2 a\<rfloor>"
proof -
  define x where "x = 1 / a"
  define m where "m = \<lceil>x\<rceil> - 1"
  define k where "k = bitlen m"
  have x1: "1 < x" using assms by (simp add: x_def)
  have m: "0 < m" using x1 by (simp add: m_def)
  have k0: "0 < k" using m bitlen_eq_zero_iff[of m] bitlen_nonneg[of m] by (simp add: k_def)
  from bitlen_bounds[OF m] have b: "2 ^ nat (k - 1) \<le> m" "m < 2 ^ nat k"
    by (simp_all add: k_def)
  have "real_of_int m < x" by (simp add: m_def) linarith
  moreover from b(1) have "(2::real) ^ nat (k - 1) \<le> real_of_int m"
    by (metis of_int_le_iff of_int_numeral of_int_power)
  ultimately have lo: "(2::real) ^ nat (k - 1) < x" by linarith
  from b(2) have "m + 1 \<le> 2 ^ nat k" by simp
  then have "real_of_int (m + 1) \<le> 2 ^ nat k"
    by (metis of_int_le_iff of_int_numeral of_int_power)
  moreover have "x \<le> real_of_int (m + 1)" by (simp add: m_def)
  ultimately have hi: "x \<le> (2::real) ^ nat k" by linarith
  have a: "a = 1 / x" using assms by (simp add: x_def)
  have lo': "1 / 2 ^ nat k \<le> a" using hi x1 unfolding a
    by (simp add: field_simps)
  have hi': "a < 1 / 2 ^ nat (k - 1)" using lo x1 unfolding a
    by (simp add: field_simps)
  have "\<lfloor>log 2 a\<rfloor> = - k"
    using assms lo' hi' k0 powr2_neg_int[of k] powr2_neg_int[of "k - 1"]
    by (subst floor_log_eq_powr_iff) (simp_all add: algebra_simps)
  then show ?thesis using assms by (simp add: binade_def k_def m_def x_def)
qed

lemma binade_log: "0 < a \<Longrightarrow> binade a = \<lfloor>log 2 a\<rfloor>"
  using binade_ge1 binade_lt1 by (cases "1 \<le> a") auto

text \<open>The rounding to an integer moves a number by at most one half and fixes the integers.\<close>

lemma round_half_even_int: "round_half_even (of_int j) = j"
  by (simp add: round_half_even_def)

lemma round_half_even_close: "\<bar>of_int (round_half_even x) - x\<bar> \<le> 1 / 2"
  unfolding round_half_even_def Let_def by (auto; linarith)

text \<open>
  The rounding to float64 moves a number by at most half a unit in the last place, and
  an integer of fewer than 54 bits is a float64.
\<close>

lemma nearest_float64_close:
  "\<bar>nearest_float64 r - r\<bar> \<le> 2 powi (max (binade \<bar>r\<bar>) (- 1022) - 52) / 2"
proof (cases "r = 0")
  case True
  then show ?thesis by (simp add: nearest_float64_def)
next
  case False
  define e where "e = max (binade \<bar>r\<bar>) (- 1022) - 52"
  define u :: real where "u = 2 powi e"
  have u: "0 < u" by (simp add: u_def)
  have "nearest_float64 r - r = (of_int (round_half_even (r / u)) - r / u) * u"
    using False u by (simp add: nearest_float64_def e_def u_def Let_def algebra_simps)
  then have "\<bar>nearest_float64 r - r\<bar> = \<bar>of_int (round_half_even (r / u)) - r / u\<bar> * u"
    using u by (simp add: abs_mult)
  also have "\<dots> \<le> (1 / 2) * u"
    using round_half_even_close[of "r / u"] u by (intro mult_right_mono) simp_all
  finally show ?thesis by (simp add: u_def e_def)
qed

lemma nearest_float64_int:
  assumes "\<bar>n\<bar> < 2 ^ 53"
  shows "nearest_float64 (of_int n) = of_int n"
proof (cases "n = 0")
  case True
  then show ?thesis by (simp add: nearest_float64_def)
next
  case False
  define k where "k = bitlen \<bar>n\<bar> - 1"
  define e where "e = max k (- 1022) - 52"
  have pos: "0 < \<bar>n\<bar>" using False by simp
  have "bitlen \<bar>n\<bar> \<le> 53" using assms by (simp add: bitlen_le_iff_power)
  moreover have "0 < bitlen \<bar>n\<bar>"
    using pos bitlen_eq_zero_iff[of "\<bar>n\<bar>"] bitlen_nonneg[of "\<bar>n\<bar>"] by linarith
  ultimately have k: "0 \<le> k" "k \<le> 52" by (simp_all add: k_def)
  then have e: "e = k - 52" "e \<le> 0" by (simp_all add: e_def)
  have b: "binade \<bar>real_of_int n\<bar> = k"
  proof -
    have "1 \<le> \<bar>real_of_int n\<bar>" using False by (metis abs_ge_zero abs_of_nonneg int_one_le_iff_zero_less of_int_1_le_iff of_int_abs pos)
    moreover have "\<lfloor>\<bar>real_of_int n\<bar>\<rfloor> = \<bar>n\<bar>" by (metis floor_of_int of_int_abs)
    ultimately show ?thesis by (simp add: binade_def k_def)
  qed
  define j where "j = nat (- e)"
  have p: "(2::real) powi e = 1 / 2 ^ j"
    using e(2) by (simp add: j_def power_int_def inverse_eq_divide power_one_over)
  have "real_of_int n / 2 powi e = of_int (n * 2 ^ j)" by (simp add: p)
  then have "round_half_even (real_of_int n / 2 powi e) = n * 2 ^ j"
    by (simp only: round_half_even_int)
  then have "of_int (round_half_even (real_of_int n / 2 powi e)) * 2 powi e = real_of_int n"
    by (simp add: p)
  then show ?thesis using False b by (simp add: nearest_float64_def e_def Let_def)
qed

lemma parse_float64_int:
  assumes "\<bar>n\<bar> < 2 ^ 53"
  shows "parse_float64 (of_int n) = (Fin (of_int n), None)"
proof -
  have "\<bar>n\<bar> < 2 ^ 1024" using assms by (rule less_trans) simp
  then have "\<bar>real_of_int n\<bar> < 2 ^ 1024"
    by (metis of_int_abs of_int_less_iff of_int_numeral of_int_power)
  then show ?thesis by (simp add: parse_float64_def nearest_float64_int[OF assms])
qed

lemma parse_float64_small:
  "parse_float64 0 = (Fin 0, None)" "parse_float64 1 = (Fin 1, None)"
  "parse_float64 10 = (Fin 10, None)"
  using parse_float64_int[of 0] parse_float64_int[of 1] parse_float64_int[of 10] by simp_all

text \<open>What is left is evaluated: one tenth, a tie, and a number out of range.\<close>

lemma nearest_float64_tenth: "nearest_float64 (1 / 10) = 3602879701896397 / 2 ^ 55"
  by (simp add: nearest_float64_def binade_def bitlen_numeral_simps round_half_even_def Let_def)

lemma nearest_float64_tie:
  "nearest_float64 (2 ^ 53 + 1) = 2 ^ 53" "nearest_float64 (2 ^ 53 + 3) = 2 ^ 53 + 4"
  by (simp_all add: nearest_float64_def binade_def bitlen_numeral_simps round_half_even_def Let_def)

lemma parse_float64_out_of_range:
  "parse_float64 (2 ^ 1024) = (PosInf, Some UnmarshalTypeError)"
  "parse_float64 (- (2 ^ 1024)) = (NegInf, Some UnmarshalTypeError)"
  by (simp_all add: parse_float64_def nearest_float64_def binade_def bitlen_numeral_simps
      round_half_even_def Let_def)


section \<open>Properties of the command\<close>

subsection \<open>Decoding\<close>

lemma fold_key_tags:
  "fold_key ''command'' = ''command''" "fold_key ''id'' = ''id''" "fold_key ''body'' = ''body''"
  "fold_key ''timestamp'' = ''timestamp''" "fold_key ''value'' = ''value''"
  by (simp_all add: fold_byte_def)

lemma Unmarshal_Garbage: "Unmarshal_ClientMessage (Garbage raw) = (zero_ClientMessage, Some SyntaxError)"
  by simp

text \<open>A member whose key does not fold to \<open>value\<close> leaves the field \<open>Value\<close> alone.\<close>

lemma member_keeps_Value:
  "fold_key (fst kv) \<noteq> ''value'' \<Longrightarrow> Value (fst (ClientMessage_member acc kv)) = Value (fst acc)"
  by (cases acc; cases kv) (simp add: ClientMessage_member_def split: prod.splits)

lemma foldl_keeps_Value:
  "\<forall>kv\<in>set kvs. fold_key (fst kv) \<noteq> ''value'' \<Longrightarrow>
   Value (fst (foldl ClientMessage_member acc kvs)) = Value (fst acc)"
  by (induction kvs arbitrary: acc) (simp_all add: member_keeps_Value)

lemma marker_decodes:
  "Unmarshal_ClientMessage empty_marker =
     (\<lparr>Command = [], Id = 0, Body = [], Timestamp = Fin 0, Value = ''sentinel''\<rparr>, None)"
  by (simp add: empty_marker_def marshal_float64_def ClientMessage_member_def zero_ClientMessage_def
      fold_byte_def first_error_def parse_float64_small)

lemma two_members_decode:
  assumes "- (2 ^ 63) \<le> n" and "n < 2 ^ 63"
  shows "Unmarshal_ClientMessage (Json (JObject [(''command'', JString c), (''id'', JInt n)])) =
     (\<lparr>Command = c, Id = n, Body = [], Timestamp = Fin 0, Value = []\<rparr>, None)"
  using assms
  by (simp add: ClientMessage_member_def zero_ClientMessage_def fold_byte_def first_error_def)

subsection \<open>Lines that do not parse\<close>

lemma emit_streams: "stdout (emit x io) = stdout io @ [x]" "stderr (emit x io) = stderr io"
  by (simp_all add: emit_def)

lemma sequential_Garbage:
  "n < MaxScanTokenSize \<Longrightarrow>
   sequential ((n, Garbage raw) # rest) f io = sequential rest f (emit (Error_line SyntaxError) io)"
  by (simp add: zero_ClientMessage_def report_def)

lemma producer_Garbage:
  assumes "n < MaxScanTokenSize" and "holds q xs"
  shows "\<exists>q'. holds q' (xs @ [Garbage raw]) \<and>
           producer (Suc k) ((n, Garbage raw) # rest) q ctx io =
             producer (Suc k) rest q' (ctx\<lparr>numOfTasks := numOfTasks ctx + 1\<rparr>)
               (emit (Error_line SyntaxError) io)"
proof -
  from Enqueue_holds[OF assms(2), of k "Garbage raw"] obtain q' where
    q': "Enqueue (Suc k) q (Garbage raw) = Some (Inr q')" "holds q' (xs @ [Garbage raw])" by blast
  have "producer (Suc k) ((n, Garbage raw) # rest) q ctx io =
          producer (Suc k) rest q' (ctx\<lparr>numOfTasks := numOfTasks ctx + 1\<rparr>)
            (emit (Error_line SyntaxError) io)"
    using q'(1) assms(1) by (simp add: zero_ClientMessage_def report_def)
  with q'(2) show ?thesis by blast
qed

lemma grab_Garbage:
  assumes "holds q (Garbage raw # xs)"
  shows "\<exists>q' ctx'. holds q' xs \<and>
           grab (Suc k) (Suc i) q ctx io blockOfTasks =
             Some (Inr (q', ctx', emit (Error_line SyntaxError) io, blockOfTasks))"
proof -
  from Dequeue_holds_nonempty[OF assms, of k] obtain q' where
    q': "Dequeue (Suc k) q = Some (Inr (Garbage raw, q'))" "holds q' xs" by blast
  have "grab (Suc k) (Suc i) q ctx io blockOfTasks =
          Some (Inr (q', ctx, emit (Error_line SyntaxError) io, blockOfTasks))"
    using q'(1) by (simp add: report_def)
  with q'(2) show ?thesis by blast
qed

text \<open>
  A line of \<open>MaxScanTokenSize\<close> bytes or more ends either loop: nothing is printed for
  it, it is not enqueued, and the lines after it are not read.
\<close>

lemma long_line_ends_input:
  assumes "MaxScanTokenSize \<le> n"
  shows "sequential ((n, b) # rest) f io = Inr (f, io)"
    and "producer k ((n, b) # rest) q ctx io = Some (Inr (q, ctx, io))"
  using assms by simp_all

text \<open>
  Claim C3, as the code has it. A line that the scanner hands over (fewer than
  \<open>MaxScanTokenSize\<close> bytes) and that is not a JSON text gets a diagnostic, printed on
  standard output (nothing is written to standard error), and the lines after it are
  processed. In sequential mode the line is skipped. In concurrent mode the producer
  enqueues it all the same and counts it; the consumer that dequeues it prints the
  diagnostic again, ends its block there without appending the line, so the line is not
  executed and gets no response. A line that is a JSON object and only lacks \<open>body\<close> and
  \<open>timestamp\<close> is no error for the decoder: the fields keep their zero values.
\<close>

theorem C3_unparseable_line:
  "stdout (emit (Error_line SyntaxError) io) = stdout io @ [Error_line SyntaxError] \<and>
   stderr (emit (Error_line SyntaxError) io) = stderr io \<and>
   (n < MaxScanTokenSize \<longrightarrow>
      sequential ((n, Garbage raw) # rest) f io =
        sequential rest f (emit (Error_line SyntaxError) io)) \<and>
   (n < MaxScanTokenSize \<and> holds q xs \<longrightarrow>
      (\<exists>q'. holds q' (xs @ [Garbage raw]) \<and>
         producer (Suc k) ((n, Garbage raw) # rest) q ctx io =
           producer (Suc k) rest q' (ctx\<lparr>numOfTasks := numOfTasks ctx + 1\<rparr>)
             (emit (Error_line SyntaxError) io))) \<and>
   (holds qh (Garbage raw # ys) \<longrightarrow>
      (\<exists>q' ctx'. holds q' ys \<and>
         grab (Suc k) (Suc i) qh ctx io blockOfTasks =
           Some (Inr (q', ctx', emit (Error_line SyntaxError) io, blockOfTasks)))) \<and>
   (- (2 ^ 63) \<le> m \<and> m < 2 ^ 63 \<longrightarrow>
      Unmarshal_ClientMessage (Json (JObject [(''command'', JString c), (''id'', JInt m)])) =
        (\<lparr>Command = c, Id = m, Body = [], Timestamp = Fin 0, Value = []\<rparr>, None))"
proof (intro conjI impI)
  show "stdout (emit (Error_line SyntaxError) io) = stdout io @ [Error_line SyntaxError]"
    by (rule emit_streams)
  show "stderr (emit (Error_line SyntaxError) io) = stderr io"
    by (rule emit_streams)
next
  assume "n < MaxScanTokenSize"
  then show "sequential ((n, Garbage raw) # rest) f io =
      sequential rest f (emit (Error_line SyntaxError) io)"
    by (rule sequential_Garbage)
next
  assume "n < MaxScanTokenSize \<and> holds q xs"
  then have "n < MaxScanTokenSize" and "holds q xs" by blast+
  then show "\<exists>q'. holds q' (xs @ [Garbage raw]) \<and>
         producer (Suc k) ((n, Garbage raw) # rest) q ctx io =
           producer (Suc k) rest q' (ctx\<lparr>numOfTasks := numOfTasks ctx + 1\<rparr>)
             (emit (Error_line SyntaxError) io)"
    by (rule producer_Garbage)
next
  assume "holds qh (Garbage raw # ys)"
  then show "\<exists>q' ctx'. holds q' ys \<and>
         grab (Suc k) (Suc i) qh ctx io blockOfTasks =
           Some (Inr (q', ctx', emit (Error_line SyntaxError) io, blockOfTasks))"
    by (rule grab_Garbage)
next
  assume "- (2 ^ 63) \<le> m \<and> m < 2 ^ 63"
  then show "Unmarshal_ClientMessage (Json (JObject [(''command'', JString c), (''id'', JInt m)])) =
        (\<lparr>Command = c, Id = m, Body = [], Timestamp = Fin 0, Value = []\<rparr>, None)"
    using two_members_decode by blast
qed


theorem C3_unparseable_line_witness:
  "(5::nat) < MaxScanTokenSize \<and> holds NewQueue [] \<and>
   sequential [(5, Garbage ''{nope'')] NewFeed \<lparr>stdout = [], stderr = []\<rparr> =
     Inr (NewFeed, \<lparr>stdout = [Error_line SyntaxError], stderr = []\<rparr>) \<and>
   (\<exists>q' q'' ctx'.
      producer (Suc 0) [(5, Garbage ''{nope'')] NewQueue \<lparr>numOfTasks = 0, doneBool = False\<rparr>
          \<lparr>stdout = [], stderr = []\<rparr> =
        Some (Inr (q', \<lparr>numOfTasks = 1, doneBool = False\<rparr>,
                   \<lparr>stdout = [Error_line SyntaxError], stderr = []\<rparr>)) \<and>
      holds q' [Garbage ''{nope''] \<and>
      grab (Suc 0) (Suc 0) q' \<lparr>numOfTasks = 1, doneBool = False\<rparr>
          \<lparr>stdout = [Error_line SyntaxError], stderr = []\<rparr> [] =
        Some (Inr (q'', ctx', \<lparr>stdout = [Error_line SyntaxError, Error_line SyntaxError],
                                stderr = []\<rparr>, []))) \<and>
   Unmarshal_ClientMessage (Json (JObject [(''command'', JString ''ADD''), (''id'', JInt 1)])) =
     (\<lparr>Command = ''ADD'', Id = 1, Body = [], Timestamp = Fin 0, Value = []\<rparr>, None)"
proof -
  let ?io = "\<lparr>stdout = [], stderr = []\<rparr>"
  let ?ctx = "\<lparr>numOfTasks = 0, doneBool = False\<rparr>"
  let ?io1 = "\<lparr>stdout = [Error_line SyntaxError], stderr = []\<rparr>"
  let ?ctx1 = "\<lparr>numOfTasks = 1, doneBool = False\<rparr>"
  note T = C3_unparseable_line[where raw = "''{nope''" and rest = "[]" and k = 0 and i = 0
      and n = 5 and m = 1 and c = "''ADD''" and blockOfTasks = "[]"]
  note T0 = T[where io = ?io and f = NewFeed and q = NewQueue and xs = "[]" and ctx = ?ctx]
  have h: "holds NewQueue []" by (rule holds_NewQueue)
  have l: "(5::nat) < MaxScanTokenSize" by (simp add: MaxScanTokenSize_def)
  from l h have lh: "(5::nat) < MaxScanTokenSize \<and> holds NewQueue []" by (rule conjI)
  have s: "sequential [(5, Garbage ''{nope'')] NewFeed ?io =
             sequential [] NewFeed (emit (Error_line SyntaxError) ?io)"
    by (rule T0[THEN conjunct2, THEN conjunct2, THEN conjunct1, THEN mp, OF l])
  have "- (2 ^ 63) \<le> (1::int) \<and> (1::int) < 2 ^ 63" by simp
  then have d: "Unmarshal_ClientMessage (Json (JObject [(''command'', JString ''ADD''), (''id'', JInt 1)])) =
     (\<lparr>Command = ''ADD'', Id = 1, Body = [], Timestamp = Fin 0, Value = []\<rparr>, None)"
    by (rule T0[THEN conjunct2, THEN conjunct2, THEN conjunct2, THEN conjunct2, THEN conjunct2,
          THEN mp])
  from T0[THEN conjunct2, THEN conjunct2, THEN conjunct2, THEN conjunct1, THEN mp, OF lh]
  obtain q' where q': "holds q' ([] @ [Garbage ''{nope''])"
    "producer (Suc 0) [(5, Garbage ''{nope'')] NewQueue ?ctx ?io =
       producer (Suc 0) [] q' (?ctx\<lparr>numOfTasks := numOfTasks ?ctx + 1\<rparr>)
         (emit (Error_line SyntaxError) ?io)"
    by (elim exE conjE)
  from q'(1) have hq: "holds q' [Garbage ''{nope'']" by simp
  note T1 = T[where io = ?io1 and qh = q' and ys = "[]" and ctx = ?ctx1]
  from T1[THEN conjunct2, THEN conjunct2, THEN conjunct2, THEN conjunct2, THEN conjunct1,
      THEN mp, OF hq]
  obtain q'' ctx' where g: "grab (Suc 0) (Suc 0) q' ?ctx1 ?io1 [] =
       Some (Inr (q'', ctx', emit (Error_line SyntaxError) ?io1, []))"
    by (elim exE conjE)
  from s have s': "sequential [(5, Garbage ''{nope'')] NewFeed ?io = Inr (NewFeed, ?io1)"
    by (simp add: emit_def)
  from q'(2) have p: "producer (Suc 0) [(5, Garbage ''{nope'')] NewQueue ?ctx ?io =
       Some (Inr (q', ?ctx1, ?io1))" by (simp add: emit_def)
  have "emit (Error_line SyntaxError) ?io1 =
          \<lparr>stdout = [Error_line SyntaxError, Error_line SyntaxError], stderr = []\<rparr>"
    by (simp add: emit_def)
  with g have g': "grab (Suc 0) (Suc 0) q' ?ctx1 ?io1 [] =
       Some (Inr (q'', ctx', \<lparr>stdout = [Error_line SyntaxError, Error_line SyntaxError],
                                stderr = []\<rparr>, []))" by (simp only:)
  from l h s' p hq g' d show ?thesis by blast
qed

text \<open>
  The claim as stated fails. A line of five bytes that is not JSON gets its diagnostic on
  standard output, standard error stays empty, and the producer enqueues the line; a
  request without \<open>body\<close> and \<open>timestamp\<close> is executed and answered.
\<close>

theorem C3_counterexample:
  "sequential [(5, Garbage ''{nope'')] NewFeed \<lparr>stdout = [], stderr = []\<rparr> =
     Inr (NewFeed, \<lparr>stdout = [Error_line SyntaxError], stderr = []\<rparr>) \<and>
   sequential [(24, Json (JObject [(''command'', JString ''ADD''), (''id'', JInt 1)]))] NewFeed
       \<lparr>stdout = [], stderr = []\<rparr> =
     Inr (\<lparr>start = Post ''null'' NegInf (Post [] (Fin 0) (Post [] PosInf nil))\<rparr>,
          \<lparr>stdout = [ServerSuccessMessage True 1], stderr = []\<rparr>) \<and>
   producer (Suc 0) [(5, Garbage ''{nope'')] NewQueue \<lparr>numOfTasks = 0, doneBool = False\<rparr>
       \<lparr>stdout = [], stderr = []\<rparr> =
     Some (Inr (\<lparr>tasks = (\<lambda>a. \<lparr>byteTask = Garbage [], nxt = None\<rparr>)
                      (1 := \<lparr>byteTask = Garbage ''{nope'', nxt = None\<rparr>,
                       0 := \<lparr>byteTask = Garbage [], nxt = Some 1\<rparr>),
                  fresh = 2, head = Some 0, tail = Some 1\<rparr>,
                \<lparr>numOfTasks = 1, doneBool = False\<rparr>,
                \<lparr>stdout = [Error_line SyntaxError], stderr = []\<rparr>))"
proof (intro conjI)
  show "sequential [(5, Garbage ''{nope'')] NewFeed \<lparr>stdout = [], stderr = []\<rparr> =
     Inr (NewFeed, \<lparr>stdout = [Error_line SyntaxError], stderr = []\<rparr>)"
    by (simp add: MaxScanTokenSize_def zero_ClientMessage_def report_def emit_def)
  show "sequential [(24, Json (JObject [(''command'', JString ''ADD''), (''id'', JInt 1)]))] NewFeed
       \<lparr>stdout = [], stderr = []\<rparr> =
     Inr (\<lparr>start = Post ''null'' NegInf (Post [] (Fin 0) (Post [] PosInf nil))\<rparr>,
          \<lparr>stdout = [ServerSuccessMessage True 1], stderr = []\<rparr>)"
    by (simp add: MaxScanTokenSize_def ClientMessage_member_def zero_ClientMessage_def
        fold_byte_def first_error_def report_def emit_def addPostTask_def Add_def NewFeed_def
        newPost_def)
  show "producer (Suc 0) [(5, Garbage ''{nope'')] NewQueue \<lparr>numOfTasks = 0, doneBool = False\<rparr>
       \<lparr>stdout = [], stderr = []\<rparr> =
     Some (Inr (\<lparr>tasks = (\<lambda>a. \<lparr>byteTask = Garbage [], nxt = None\<rparr>)
                      (1 := \<lparr>byteTask = Garbage ''{nope'', nxt = None\<rparr>,
                       0 := \<lparr>byteTask = Garbage [], nxt = Some 1\<rparr>),
                  fresh = 2, head = Some 0, tail = Some 1\<rparr>,
                \<lparr>numOfTasks = 1, doneBool = False\<rparr>,
                \<lparr>stdout = [Error_line SyntaxError], stderr = []\<rparr>))"
    by (simp add: MaxScanTokenSize_def zero_ClientMessage_def report_def emit_def Enqueue_def
        newTask_def Enqueue_pass_def NewQueue_def zero_task_def Let_def)
qed


subsection \<open>The empty-queue marker\<close>

lemma no_value_key:
  assumes "\<forall>kv\<in>set kvs. fold_key (fst kv) \<noteq> ''value''"
  shows "Value (fst (Unmarshal_ClientMessage (Json (JObject kvs)))) \<noteq> ''sentinel''"
proof -
  from foldl_keeps_Value[OF assms, of "(zero_ClientMessage, None)"]
  have "Value (fst (Unmarshal_ClientMessage (Json (JObject kvs)))) = []"
    by (simp add: zero_ClientMessage_def)
  then show ?thesis by simp
qed

text \<open>What a consumer does with the payload at the head of the queue.\<close>

lemma grab_head:
  assumes "holds q (b # xs)"
  shows "\<exists>q' ctx'. holds q' xs \<and>
           grab (Suc k) (Suc i) q ctx io blockOfTasks =
             (case Unmarshal_ClientMessage b of
                (cm, Some e) \<Rightarrow> Some (Inr (q', ctx', emit (Error_line e) io, blockOfTasks))
              | (cm, None) \<Rightarrow>
                  if Value cm = ''sentinel'' then Some (Inr (q', ctx, io, blockOfTasks))
                  else grab (Suc k) i q' (ctx\<lparr>numOfTasks := numOfTasks ctx - 1\<rparr>) io
                         (blockOfTasks @ [cm]))"
proof -
  from Dequeue_holds_nonempty[OF assms, of k] obtain q' where
    q': "Dequeue (Suc k) q = Some (Inr (b, q'))" "holds q' xs" by blast
  have "grab (Suc k) (Suc i) q ctx io blockOfTasks =
             (case Unmarshal_ClientMessage b of
                (cm, Some e) \<Rightarrow> Some (Inr (q', ctx, emit (Error_line e) io, blockOfTasks))
              | (cm, None) \<Rightarrow>
                  if Value cm = ''sentinel'' then Some (Inr (q', ctx, io, blockOfTasks))
                  else grab (Suc k) i q' (ctx\<lparr>numOfTasks := numOfTasks ctx - 1\<rparr>) io
                         (blockOfTasks @ [cm]))"
    using q'(1) by (simp add: report_def split: prod.splits option.splits)
  with q'(2) show ?thesis by blast
qed

text \<open>An empty queue: the first \<open>Dequeue\<close> returns the marker and the block ends.\<close>

lemma grab_empty:
  assumes "holds q []"
  shows "grab (Suc k) (Suc i) q ctx io blockOfTasks = Some (Inr (q, ctx, io, blockOfTasks))"
  using Dequeue_holds_empty[OF assms, of k] marker_decodes by simp

text \<open>
  A request with no key that matches \<open>value\<close> is never taken for the marker: it is
  appended to the block when it decodes without error, and otherwise the consumer prints
  the error and ends its block.
\<close>

lemma grab_value_free:
  assumes "holds q (Json (JObject kvs) # xs)"
    and "\<forall>kv\<in>set kvs. fold_key (fst kv) \<noteq> ''value''"
  shows "\<exists>q' ctx'. holds q' xs \<and>
           grab (Suc k) (Suc i) q ctx io blockOfTasks =
             (case Unmarshal_ClientMessage (Json (JObject kvs)) of
                (cm, Some e) \<Rightarrow> Some (Inr (q', ctx', emit (Error_line e) io, blockOfTasks))
              | (cm, None) \<Rightarrow>
                  grab (Suc k) i q' (ctx\<lparr>numOfTasks := numOfTasks ctx - 1\<rparr>) io
                    (blockOfTasks @ [cm]))"
proof -
  obtain cm err where u: "Unmarshal_ClientMessage (Json (JObject kvs)) = (cm, err)"
    by (cases "Unmarshal_ClientMessage (Json (JObject kvs))")
  from no_value_key[OF assms(2)] u have v: "Value cm \<noteq> ''sentinel''" by simp
  from grab_head[OF assms(1), of k i ctx io blockOfTasks] obtain q' ctx' where
    q': "holds q' xs"
      "grab (Suc k) (Suc i) q ctx io blockOfTasks =
         (case Unmarshal_ClientMessage (Json (JObject kvs)) of
            (cm, Some e) \<Rightarrow> Some (Inr (q', ctx', emit (Error_line e) io, blockOfTasks))
          | (cm, None) \<Rightarrow>
              if Value cm = ''sentinel'' then Some (Inr (q', ctx, io, blockOfTasks))
              else grab (Suc k) i q' (ctx\<lparr>numOfTasks := numOfTasks ctx - 1\<rparr>) io
                     (blockOfTasks @ [cm]))"
    by (elim exE conjE)
  from q'(2) u v have "grab (Suc k) (Suc i) q ctx io blockOfTasks =
         (case Unmarshal_ClientMessage (Json (JObject kvs)) of
            (cm, Some e) \<Rightarrow> Some (Inr (q', ctx', emit (Error_line e) io, blockOfTasks))
          | (cm, None) \<Rightarrow>
              grab (Suc k) i q' (ctx\<lparr>numOfTasks := numOfTasks ctx - 1\<rparr>) io
                (blockOfTasks @ [cm]))"
    by (simp del: Unmarshal_ClientMessage.simps split: option.splits)
  with q'(1) show ?thesis by blast
qed

text \<open>
  Claim C4, as the code has it. \<open>Dequeue\<close> on an empty queue returns a payload that
  decodes without error to a record whose \<open>value\<close> is \<open>sentinel\<close>, and the consumer ends
  its block there in silence. A consumer takes the payload at the head of the queue for
  that marker exactly when the payload decodes without error to a record whose \<open>value\<close>
  is \<open>sentinel\<close>: a payload that does not decode is reported and ends the block, and any
  other payload is appended to the block. A request with no key that matches \<open>value\<close>, as
  in the input schema, never decodes to \<open>sentinel\<close>, so it is never taken for the marker:
  it is appended to the block when it decodes without error, and reported otherwise.
\<close>

theorem C4_empty_marker:
  "(holds q [] \<longrightarrow>
      Dequeue (Suc k) q = Some (Inr (empty_marker, q)) \<and>
      grab (Suc k) (Suc i) q ctx io blockOfTasks = Some (Inr (q, ctx, io, blockOfTasks))) \<and>
   Unmarshal_ClientMessage empty_marker =
     (\<lparr>Command = [], Id = 0, Body = [], Timestamp = Fin 0, Value = ''sentinel''\<rparr>, None) \<and>
   (holds qh (b # xs) \<longrightarrow>
      (\<exists>q' ctx'. holds q' xs \<and>
         grab (Suc k) (Suc i) qh ctx io blockOfTasks =
           (case Unmarshal_ClientMessage b of
              (cm, Some e) \<Rightarrow> Some (Inr (q', ctx', emit (Error_line e) io, blockOfTasks))
            | (cm, None) \<Rightarrow>
                if Value cm = ''sentinel'' then Some (Inr (q', ctx, io, blockOfTasks))
                else grab (Suc k) i q' (ctx\<lparr>numOfTasks := numOfTasks ctx - 1\<rparr>) io
                       (blockOfTasks @ [cm])))) \<and>
   ((\<forall>kv\<in>set kvs. fold_key (fst kv) \<noteq> ''value'') \<longrightarrow>
      Value (fst (Unmarshal_ClientMessage (Json (JObject kvs)))) \<noteq> ''sentinel'') \<and>
   (holds qv (Json (JObject kvs) # ys) \<and> (\<forall>kv\<in>set kvs. fold_key (fst kv) \<noteq> ''value'') \<longrightarrow>
      (\<exists>q' ctx'. holds q' ys \<and>
         grab (Suc k) (Suc i) qv ctx io blockOfTasks =
           (case Unmarshal_ClientMessage (Json (JObject kvs)) of
              (cm, Some e) \<Rightarrow> Some (Inr (q', ctx', emit (Error_line e) io, blockOfTasks))
            | (cm, None) \<Rightarrow>
                grab (Suc k) i q' (ctx\<lparr>numOfTasks := numOfTasks ctx - 1\<rparr>) io
                  (blockOfTasks @ [cm]))))"
proof (intro conjI impI)
  assume "holds q []"
  then show "Dequeue (Suc k) q = Some (Inr (empty_marker, q))" by (rule Dequeue_holds_empty)
next
  assume "holds q []"
  then show "grab (Suc k) (Suc i) q ctx io blockOfTasks = Some (Inr (q, ctx, io, blockOfTasks))"
    by (rule grab_empty)
next
  show "Unmarshal_ClientMessage empty_marker =
     (\<lparr>Command = [], Id = 0, Body = [], Timestamp = Fin 0, Value = ''sentinel''\<rparr>, None)"
    by (rule marker_decodes)
next
  assume "holds qh (b # xs)"
  then show "\<exists>q' ctx'. holds q' xs \<and>
         grab (Suc k) (Suc i) qh ctx io blockOfTasks =
           (case Unmarshal_ClientMessage b of
              (cm, Some e) \<Rightarrow> Some (Inr (q', ctx', emit (Error_line e) io, blockOfTasks))
            | (cm, None) \<Rightarrow>
                if Value cm = ''sentinel'' then Some (Inr (q', ctx, io, blockOfTasks))
                else grab (Suc k) i q' (ctx\<lparr>numOfTasks := numOfTasks ctx - 1\<rparr>) io
                       (blockOfTasks @ [cm]))"
    by (rule grab_head)
next
  assume "\<forall>kv\<in>set kvs. fold_key (fst kv) \<noteq> ''value''"
  then show "Value (fst (Unmarshal_ClientMessage (Json (JObject kvs)))) \<noteq> ''sentinel''"
    by (rule no_value_key)
next
  assume "holds qv (Json (JObject kvs) # ys) \<and> (\<forall>kv\<in>set kvs. fold_key (fst kv) \<noteq> ''value'')"
  then have "holds qv (Json (JObject kvs) # ys)" and "\<forall>kv\<in>set kvs. fold_key (fst kv) \<noteq> ''value''"
    by blast+
  then show "\<exists>q' ctx'. holds q' ys \<and>
         grab (Suc k) (Suc i) qv ctx io blockOfTasks =
           (case Unmarshal_ClientMessage (Json (JObject kvs)) of
              (cm, Some e) \<Rightarrow> Some (Inr (q', ctx', emit (Error_line e) io, blockOfTasks))
            | (cm, None) \<Rightarrow>
                grab (Suc k) i q' (ctx\<lparr>numOfTasks := numOfTasks ctx - 1\<rparr>) io
                  (blockOfTasks @ [cm]))"
    by (rule grab_value_free)
qed

theorem C4_empty_marker_witness:
  "holds NewQueue [] \<and>
   Dequeue (Suc 0) NewQueue = Some (Inr (empty_marker, NewQueue)) \<and>
   grab (Suc 0) (Suc 0) NewQueue \<lparr>numOfTasks = 0, doneBool = False\<rparr> \<lparr>stdout = [], stderr = []\<rparr> [] =
     Some (Inr (NewQueue, \<lparr>numOfTasks = 0, doneBool = False\<rparr>, \<lparr>stdout = [], stderr = []\<rparr>, [])) \<and>
   list_all (\<lambda>kv. fold_key (fst kv) \<noteq> ''value'')
     [(''command'', JString ''FEED''), (''id'', JInt 2)] \<and>
   Value (fst (Unmarshal_ClientMessage
     (Json (JObject [(''command'', JString ''FEED''), (''id'', JInt 2)])))) \<noteq> ''sentinel'' \<and>
   (\<exists>q1 q2.
      Enqueue (Suc 0) NewQueue (Json (JObject [(''command'', JString ''FEED''), (''id'', JInt 2)])) =
        Some (Inr q1) \<and>
      grab (Suc 0) (Suc 0) q1 \<lparr>numOfTasks = 1, doneBool = False\<rparr> \<lparr>stdout = [], stderr = []\<rparr> [] =
        Some (Inr (q2, \<lparr>numOfTasks = 0, doneBool = False\<rparr>, \<lparr>stdout = [], stderr = []\<rparr>,
                   [\<lparr>Command = ''FEED'', Id = 2, Body = [], Timestamp = Fin 0, Value = []\<rparr>]))) \<and>
   list_all (\<lambda>kv. fold_key (fst kv) \<noteq> ''value'')
     [(''command'', JString ''FEED''), (''id'', JString ''x'')] \<and>
   (\<exists>q1 q2 ctx'.
      Enqueue (Suc 0) NewQueue
          (Json (JObject [(''command'', JString ''FEED''), (''id'', JString ''x'')])) =
        Some (Inr q1) \<and>
      grab (Suc 0) (Suc 0) q1 \<lparr>numOfTasks = 1, doneBool = False\<rparr> \<lparr>stdout = [], stderr = []\<rparr> [] =
        Some (Inr (q2, ctx', \<lparr>stdout = [Error_line UnmarshalTypeError], stderr = []\<rparr>, [])))"
proof -
  let ?kvs = "[(''command'', JString ''FEED''), (''id'', JInt 2)]"
  let ?b = "Json (JObject ?kvs)"
  let ?cm = "\<lparr>Command = ''FEED'', Id = 2, Body = [], Timestamp = Fin 0, Value = []\<rparr>"
  let ?kvx = "[(''command'', JString ''FEED''), (''id'', JString ''x'')]"
  let ?x = "Json (JObject ?kvx)"
  let ?cmx = "\<lparr>Command = ''FEED'', Id = 0, Body = [], Timestamp = Fin 0, Value = []\<rparr>"
  let ?idle = "\<lparr>numOfTasks = 0, doneBool = False\<rparr>"
  let ?ctx = "\<lparr>numOfTasks = 1, doneBool = False\<rparr>"
  let ?io = "\<lparr>stdout = [], stderr = []\<rparr>"
  have h: "holds NewQueue []" by (rule holds_NewQueue)
  from Enqueue_holds[OF h, of 0 ?b] obtain q1 where
    q1: "Enqueue (Suc 0) NewQueue ?b = Some (Inr q1)" "holds q1 [?b]" by auto
  from Enqueue_holds[OF h, of 0 ?x] obtain qx where
    qx: "Enqueue (Suc 0) NewQueue ?x = Some (Inr qx)" "holds qx [?x]" by auto
  have dec: "Unmarshal_ClientMessage ?b = (?cm, None)"
    by (simp add: ClientMessage_member_def zero_ClientMessage_def fold_byte_def first_error_def)
  have decx: "Unmarshal_ClientMessage ?x = (?cmx, Some UnmarshalTypeError)"
    by (simp add: ClientMessage_member_def zero_ClientMessage_def fold_byte_def first_error_def)
  have keys: "\<forall>kv\<in>set ?kvs. fold_key (fst kv) \<noteq> ''value''" by (simp add: fold_byte_def)
  have keyx: "\<forall>kv\<in>set ?kvx. fold_key (fst kv) \<noteq> ''value''" by (simp add: fold_byte_def)
  note T = C4_empty_marker[where k = 0 and i = 0 and io = ?io and blockOfTasks = "[]"]
  note T0 = T[where q = NewQueue and ctx = ?idle]
  note T1 = T[where qh = q1 and b = ?b and xs = "[]" and ctx = ?ctx and kvs = ?kvs]
  note Tx = T[where qv = qx and kvs = ?kvx and ys = "[]" and ctx = ?ctx]
  have d: "Dequeue (Suc 0) NewQueue = Some (Inr (empty_marker, NewQueue))"
    by (rule T0[THEN conjunct1, THEN mp, OF h, THEN conjunct1])
  have e: "grab (Suc 0) (Suc 0) NewQueue ?idle ?io [] = Some (Inr (NewQueue, ?idle, ?io, []))"
    by (rule T0[THEN conjunct1, THEN mp, OF h, THEN conjunct2])
  have v: "Value (fst (Unmarshal_ClientMessage ?b)) \<noteq> ''sentinel''"
    by (rule T1[THEN conjunct2, THEN conjunct2, THEN conjunct2, THEN conjunct1, THEN mp, OF keys])
  from T1[THEN conjunct2, THEN conjunct2, THEN conjunct1, THEN mp, OF q1(2)]
  obtain q2 ctx2 where "grab (Suc 0) (Suc 0) q1 ?ctx ?io [] =
           (case Unmarshal_ClientMessage ?b of
              (cm, Some e) \<Rightarrow> Some (Inr (q2, ctx2, emit (Error_line e) ?io, []))
            | (cm, None) \<Rightarrow>
                if Value cm = ''sentinel'' then Some (Inr (q2, ?ctx, ?io, []))
                else grab (Suc 0) 0 q2 (?ctx\<lparr>numOfTasks := numOfTasks ?ctx - 1\<rparr>) ?io ([] @ [cm]))"
    by (elim exE conjE)
  then have g: "grab (Suc 0) (Suc 0) q1 ?ctx ?io [] =
        Some (Inr (q2, \<lparr>numOfTasks = 0, doneBool = False\<rparr>, ?io, [?cm]))"
    unfolding dec by simp
  from qx(2) keyx have "holds qx (?x # []) \<and> (\<forall>kv\<in>set ?kvx. fold_key (fst kv) \<noteq> ''value'')"
    by (rule conjI)
  from Tx[THEN conjunct2, THEN conjunct2, THEN conjunct2, THEN conjunct2, THEN mp, OF this]
  obtain q3 ctx3 where "grab (Suc 0) (Suc 0) qx ?ctx ?io [] =
           (case Unmarshal_ClientMessage ?x of
              (cm, Some e) \<Rightarrow> Some (Inr (q3, ctx3, emit (Error_line e) ?io, []))
            | (cm, None) \<Rightarrow>
                grab (Suc 0) 0 q3 (?ctx\<lparr>numOfTasks := numOfTasks ?ctx - 1\<rparr>) ?io ([] @ [cm]))"
    by (elim exE conjE)
  then have gx: "grab (Suc 0) (Suc 0) qx ?ctx ?io [] =
        Some (Inr (q3, ctx3, \<lparr>stdout = [Error_line UnmarshalTypeError], stderr = []\<rparr>, []))"
    unfolding decx by (simp add: emit_def)
  have k': "list_all (\<lambda>kv. fold_key (fst kv) \<noteq> ''value'') ?kvs" by (simp add: fold_byte_def)
  have kx': "list_all (\<lambda>kv. fold_key (fst kv) \<noteq> ''value'') ?kvx" by (simp add: fold_byte_def)
  from q1(1) g have a1: "\<exists>q1 q2.
      Enqueue (Suc 0) NewQueue ?b = Some (Inr q1) \<and>
      grab (Suc 0) (Suc 0) q1 ?ctx ?io [] =
        Some (Inr (q2, \<lparr>numOfTasks = 0, doneBool = False\<rparr>, ?io, [?cm]))" by blast
  from qx(1) gx have a2: "\<exists>q1 q2 ctx'.
      Enqueue (Suc 0) NewQueue ?x = Some (Inr q1) \<and>
      grab (Suc 0) (Suc 0) q1 ?ctx ?io [] =
        Some (Inr (q2, ctx', \<lparr>stdout = [Error_line UnmarshalTypeError], stderr = []\<rparr>, []))"
    by blast
  from h d e k' v a1 kx' a2 show ?thesis by (intro conjI)
qed

text \<open>
  The claim as stated fails: a request that carries \<open>"value": "sentinel"\<close> is not the
  marker, the producer enqueues it, and the consumer that dequeues it takes it for the
  marker: it ends its block without appending the request.
\<close>

theorem C4_counterexample:
  "Json (JObject [(''command'', JString ''ADD''), (''id'', JInt 7), (''body'', JString ''hi''),
                  (''timestamp'', JInt 1), (''value'', JString ''sentinel'')]) \<noteq> empty_marker \<and>
   producer (Suc 0)
       [(69, Json (JObject [(''command'', JString ''ADD''), (''id'', JInt 7),
                            (''body'', JString ''hi''), (''timestamp'', JInt 1),
                            (''value'', JString ''sentinel'')]))]
       NewQueue \<lparr>numOfTasks = 0, doneBool = False\<rparr> \<lparr>stdout = [], stderr = []\<rparr> =
     Some (Inr (\<lparr>tasks = (\<lambda>a. \<lparr>byteTask = Garbage [], nxt = None\<rparr>)
                      (1 := \<lparr>byteTask = Json (JObject [(''command'', JString ''ADD''),
                                 (''id'', JInt 7), (''body'', JString ''hi''),
                                 (''timestamp'', JInt 1), (''value'', JString ''sentinel'')]),
                              nxt = None\<rparr>,
                       0 := \<lparr>byteTask = Garbage [], nxt = Some 1\<rparr>),
                  fresh = 2, head = Some 0, tail = Some 1\<rparr>,
                \<lparr>numOfTasks = 1, doneBool = False\<rparr>,
                \<lparr>stdout = [], stderr = []\<rparr>)) \<and>
   grab (Suc 0) (Suc 0)
       \<lparr>tasks = (\<lambda>a. \<lparr>byteTask = Garbage [], nxt = None\<rparr>)
                      (1 := \<lparr>byteTask = Json (JObject [(''command'', JString ''ADD''),
                                 (''id'', JInt 7), (''body'', JString ''hi''),
                                 (''timestamp'', JInt 1), (''value'', JString ''sentinel'')]),
                              nxt = None\<rparr>,
                       0 := \<lparr>byteTask = Garbage [], nxt = Some 1\<rparr>),
                  fresh = 2, head = Some 0, tail = Some 1\<rparr>
       \<lparr>numOfTasks = 1, doneBool = False\<rparr> \<lparr>stdout = [], stderr = []\<rparr> [] =
     Some (Inr (\<lparr>tasks = (\<lambda>a. \<lparr>byteTask = Garbage [], nxt = None\<rparr>)
                      (1 := \<lparr>byteTask = Json (JObject [(''command'', JString ''ADD''),
                                 (''id'', JInt 7), (''body'', JString ''hi''),
                                 (''timestamp'', JInt 1), (''value'', JString ''sentinel'')]),
                              nxt = None\<rparr>,
                       0 := \<lparr>byteTask = Garbage [], nxt = Some 1\<rparr>),
                  fresh = 2, head = Some 1, tail = Some 1\<rparr>,
                \<lparr>numOfTasks = 1, doneBool = False\<rparr>, \<lparr>stdout = [], stderr = []\<rparr>, []))"
proof -
  let ?b = "Json (JObject [(''command'', JString ''ADD''), (''id'', JInt 7), (''body'', JString ''hi''),
                  (''timestamp'', JInt 1), (''value'', JString ''sentinel'')])"
  have dec: "Unmarshal_ClientMessage ?b =
     (\<lparr>Command = ''ADD'', Id = 7, Body = ''hi'', Timestamp = Fin 1, Value = ''sentinel''\<rparr>, None)"
    by (simp add: ClientMessage_member_def zero_ClientMessage_def fold_byte_def first_error_def
        parse_float64_small)
  have ne: "?b \<noteq> empty_marker" by (simp add: empty_marker_def)
  have p: "producer (Suc 0) [(69, ?b)] NewQueue \<lparr>numOfTasks = 0, doneBool = False\<rparr>
             \<lparr>stdout = [], stderr = []\<rparr> =
     Some (Inr (\<lparr>tasks = (\<lambda>a. \<lparr>byteTask = Garbage [], nxt = None\<rparr>)
                      (1 := \<lparr>byteTask = ?b, nxt = None\<rparr>,
                       0 := \<lparr>byteTask = Garbage [], nxt = Some 1\<rparr>),
                  fresh = 2, head = Some 0, tail = Some 1\<rparr>,
                \<lparr>numOfTasks = 1, doneBool = False\<rparr>,
                \<lparr>stdout = [], stderr = []\<rparr>))"
    unfolding producer.simps dec
    by (simp add: MaxScanTokenSize_def report_def Enqueue_def newTask_def Enqueue_pass_def NewQueue_def zero_task_def
        Let_def)
  have g: "grab (Suc 0) (Suc 0)
       \<lparr>tasks = (\<lambda>a. \<lparr>byteTask = Garbage [], nxt = None\<rparr>)
                      (1 := \<lparr>byteTask = ?b, nxt = None\<rparr>,
                       0 := \<lparr>byteTask = Garbage [], nxt = Some 1\<rparr>),
                  fresh = 2, head = Some 0, tail = Some 1\<rparr>
       \<lparr>numOfTasks = 1, doneBool = False\<rparr> \<lparr>stdout = [], stderr = []\<rparr> [] =
     Some (Inr (\<lparr>tasks = (\<lambda>a. \<lparr>byteTask = Garbage [], nxt = None\<rparr>)
                      (1 := \<lparr>byteTask = ?b, nxt = None\<rparr>,
                       0 := \<lparr>byteTask = Garbage [], nxt = Some 1\<rparr>),
                  fresh = 2, head = Some 1, tail = Some 1\<rparr>,
                \<lparr>numOfTasks = 1, doneBool = False\<rparr>, \<lparr>stdout = [], stderr = []\<rparr>, []))"
    by (simp add: Dequeue_pass_def Let_def dec del: Unmarshal_ClientMessage.simps)
  from ne p g show ?thesis by (intro conjI)
qed


subsection \<open>The argument vector\<close>

lemma main_three: "main [prog, a, b] stdin_lines = Concurrent (ParseInt a) (ParseInt b)"
  by (simp add: main_def)

lemma main_otherwise:
  "length os_Args \<noteq> 3 \<Longrightarrow>
   main os_Args stdin_lines = Sequential (sequential stdin_lines NewFeed \<lparr>stdout = [], stderr = []\<rparr>)"
  by (simp add: main_def)

text \<open>No task prints the usage text, so sequential mode never does.\<close>

lemma report_no_usage: "Usage \<notin> set (stdout io) \<Longrightarrow> Usage \<notin> set (stdout (report err io))"
  by (cases err) (simp_all add: report_def emit_def)

lemma decode_posts_no_usage:
  "Usage \<notin> set (stdout io) \<Longrightarrow> decode_posts bs io acc = (feedArray, io') \<Longrightarrow>
   Usage \<notin> set (stdout io')"
proof (induction bs arbitrary: io acc)
  case Nil
  then show ?case by simp
next
  case (Cons b bs)
  obtain pd err where u: "Unmarshal_PostData b = (pd, err)" by (cases "Unmarshal_PostData b")
  from Cons.prems(2) u have "decode_posts bs (report err io) (acc @ [pd]) = (feedArray, io')"
    by simp
  from Cons.IH[OF report_no_usage[OF Cons.prems(1)] this] show ?case .
qed

lemma tasks_no_usage:
  assumes "Usage \<notin> set (stdout io)"
  shows "addPostTask f cm io = Inr (f', io') \<Longrightarrow> Usage \<notin> set (stdout io')"
    and "removePostTask f cm io = Inr (f', io') \<Longrightarrow> Usage \<notin> set (stdout io')"
    and "containsPostTask f cm io = Inr (f', io') \<Longrightarrow> Usage \<notin> set (stdout io')"
    and "showFeedTask f cm io = Inr (f', io') \<Longrightarrow> Usage \<notin> set (stdout io')"
proof -
  show "addPostTask f cm io = Inr (f', io') \<Longrightarrow> Usage \<notin> set (stdout io')"
    using assms by (auto simp: addPostTask_def emit_def split: sum.splits)
  show "removePostTask f cm io = Inr (f', io') \<Longrightarrow> Usage \<notin> set (stdout io')"
    using assms by (auto simp: removePostTask_def emit_def split: sum.splits prod.splits)
  show "containsPostTask f cm io = Inr (f', io') \<Longrightarrow> Usage \<notin> set (stdout io')"
    using assms by (auto simp: containsPostTask_def emit_def split: sum.splits)
  show "showFeedTask f cm io = Inr (f', io') \<Longrightarrow> Usage \<notin> set (stdout io')"
    using assms decode_posts_no_usage
    by (fastforce simp: showFeedTask_def emit_def split: sum.splits prod.splits)
qed

lemma sequential_no_usage:
  "Usage \<notin> set (stdout io) \<Longrightarrow> sequential lines f io = Inr (f', io') \<Longrightarrow>
   Usage \<notin> set (stdout io')"
proof (induction lines arbitrary: f io)
  case Nil
  then show ?case by simp
next
  case (Cons l rest)
  obtain n task where l: "l = (n, task)" by (cases l)
  show ?case
  proof (cases "n < MaxScanTokenSize")
    case False
    with Cons.prems l show ?thesis by simp
  next
    case True
    note run = Cons.prems(2)[unfolded l]
    obtain cm err where u: "Unmarshal_ClientMessage task = (cm, err)"
      by (cases "Unmarshal_ClientMessage task")
    note r = report_no_usage[OF Cons.prems(1), of err]
    consider (a) "Command cm = ''ADD''" | (r) "Command cm = ''REMOVE''"
      | (c) "Command cm = ''CONTAINS''" | (f) "Command cm = ''FEED''" | (d) "Command cm = ''DONE''"
      | (o) "Command cm \<noteq> ''ADD''" "Command cm \<noteq> ''REMOVE''" "Command cm \<noteq> ''CONTAINS''"
            "Command cm \<noteq> ''FEED''" "Command cm \<noteq> ''DONE''"
      by blast
    then show ?thesis
    proof cases
      case a
      with run True u obtain f1 io1 where
        "addPostTask f cm (report err io) = Inr (f1, io1)" "sequential rest f1 io1 = Inr (f', io')"
        by (auto split: sum.splits)
      with Cons.IH tasks_no_usage(1)[OF r] show ?thesis by blast
    next
      case r
      with run True u obtain f1 io1 where
        "removePostTask f cm (report err io) = Inr (f1, io1)"
        "sequential rest f1 io1 = Inr (f', io')"
        by (auto split: sum.splits)
      with Cons.IH tasks_no_usage(2)[OF \<open>Usage \<notin> set (stdout (report err io))\<close>] show ?thesis
        by blast
    next
      case c
      with run True u obtain f1 io1 where
        "containsPostTask f cm (report err io) = Inr (f1, io1)"
        "sequential rest f1 io1 = Inr (f', io')"
        by (auto split: sum.splits)
      with Cons.IH tasks_no_usage(3)[OF \<open>Usage \<notin> set (stdout (report err io))\<close>] show ?thesis
        by blast
    next
      case f
      with run True u obtain f1 io1 where
        "showFeedTask f cm (report err io) = Inr (f1, io1)"
        "sequential rest f1 io1 = Inr (f', io')"
        by (auto split: sum.splits)
      with Cons.IH tasks_no_usage(4)[OF \<open>Usage \<notin> set (stdout (report err io))\<close>] show ?thesis
        by blast
    next
      case d
      with run True u have "io' = report err io" by simp
      with \<open>Usage \<notin> set (stdout (report err io))\<close> show ?thesis by simp
    next
      case o
      with run True u have "sequential rest f (report err io) = Inr (f', io')" by simp
      with Cons.IH \<open>Usage \<notin> set (stdout (report err io))\<close> show ?thesis by blast
    qed
  qed
qed

lemma usage_never_printed:
  "main os_Args stdin_lines = Sequential (Inr (f, io)) \<Longrightarrow> Usage \<notin> set (stdout io)"
proof -
  assume m: "main os_Args stdin_lines = Sequential (Inr (f, io))"
  then have "sequential stdin_lines NewFeed \<lparr>stdout = [], stderr = []\<rparr> = Inr (f, io)"
    by (auto simp: main_def split: if_splits)
  with sequential_no_usage[of "\<lparr>stdout = [], stderr = []\<rparr>"] show ?thesis by simp
qed

text \<open>
  Claim C2. With one argument after the program name the argument count is neither zero
  nor two, and the claim has the program print the usage text and exit without reading
  its input. \<open>main\<close> tests \<open>len(os.Args) != 3\<close> and nothing else, \<open>printUsage\<close> is never
  called: the run is a sequential run, the request is executed and answered, and the
  usage text is not printed. (Zero arguments run sequentially and two run concurrently
  with the parsed numbers, as claimed.)
\<close>

theorem C2_one_argument:
  "main [''twitter'', ''4'']
     [(51, Json (JObject [(''command'', JString ''ADD''), (''id'', JInt 1),
                          (''body'', JString ''hi''), (''timestamp'', JInt 10)])),
      (18, Json (JObject [(''command'', JString ''DONE'')]))] =
   Sequential (Inr (\<lparr>start = Post ''null'' NegInf (Post ''hi'' (Fin 10) (Post '''' PosInf nil))\<rparr>,
     \<lparr>stdout = [ServerSuccessMessage True 1], stderr = []\<rparr>)) \<and>
   main [''twitter''] [(18, Json (JObject [(''command'', JString ''DONE'')]))] =
     Sequential (Inr (NewFeed, \<lparr>stdout = [], stderr = []\<rparr>)) \<and>
   main [''twitter'', ''4'', ''3''] [(18, Json (JObject [(''command'', JString ''DONE'')]))] =
     Concurrent 4 3"
proof (intro conjI)
  show "main [''twitter'', ''4'']
     [(51, Json (JObject [(''command'', JString ''ADD''), (''id'', JInt 1),
                          (''body'', JString ''hi''), (''timestamp'', JInt 10)])),
      (18, Json (JObject [(''command'', JString ''DONE'')]))] =
   Sequential (Inr (\<lparr>start = Post ''null'' NegInf (Post ''hi'' (Fin 10) (Post '''' PosInf nil))\<rparr>,
     \<lparr>stdout = [ServerSuccessMessage True 1], stderr = []\<rparr>))"
    by (simp add: main_def MaxScanTokenSize_def ClientMessage_member_def zero_ClientMessage_def
        fold_byte_def first_error_def addPostTask_def Add_def NewFeed_def newPost_def report_def
        emit_def parse_float64_small)
  show "main [''twitter''] [(18, Json (JObject [(''command'', JString ''DONE'')]))] =
     Sequential (Inr (NewFeed, \<lparr>stdout = [], stderr = []\<rparr>))"
    by (simp add: main_def MaxScanTokenSize_def ClientMessage_member_def zero_ClientMessage_def
        fold_byte_def first_error_def report_def)
  show "main [''twitter'', ''4'', ''3''] [(18, Json (JObject [(''command'', JString ''DONE'')]))] =
     Concurrent 4 3"
    by (simp add: main_def ParseInt_def digit_def)
qed

end
